theory Spec2Isabelle
  imports Main "HOL-Library.AList"
begin

section \<open>Strings\<close>

text \<open>
  Package names, filter strings and fixture text are Python \<open>str\<close> values. They are modelled
  as \<open>string\<close>, a character standing for a code point below 256; on these the case mapping
  and the whitespace class below are those of \<open>str.lower\<close>, \<open>str.strip\<close> and \<open>str.split\<close>.
  Text with code points from 256 on is outside the model.
\<close>

definition lower_char :: "char \<Rightarrow> char" where
  "lower_char c =
     (let n = (of_char c :: nat)
      in if (65 \<le> n \<and> n \<le> 90) \<or> (192 \<le> n \<and> n \<le> 222 \<and> n \<noteq> 215) then char_of (n + 32)
         else c)"

definition lower :: "string \<Rightarrow> string" where
  "lower s = map lower_char s"

fun startswith :: "string \<Rightarrow> string \<Rightarrow> bool" where
  "startswith s [] = True"
| "startswith [] (p # ps) = False"
| "startswith (c # cs) (p # ps) = (c = p \<and> startswith cs ps)"

text \<open>\<open>str_in sub s\<close> is Python's \<open>sub in s\<close> on strings.\<close>

fun str_in :: "string \<Rightarrow> string \<Rightarrow> bool" where
  "str_in sub [] = (sub = [])"
| "str_in sub (c # cs) = (startswith (c # cs) sub \<or> str_in sub cs)"

definition is_space :: "char \<Rightarrow> bool" where
  "is_space c =
     (let n = (of_char c :: nat)
      in (9 \<le> n \<and> n \<le> 13) \<or> (28 \<le> n \<and> n \<le> 32) \<or> n = 133 \<or> n = 160)"

definition strip :: "string \<Rightarrow> string" where
  "strip s = rev (dropWhile is_space (rev (dropWhile is_space s)))"

text \<open>\<open>split_ws s\<close> is \<open>s.split()\<close>: the maximal runs of non-whitespace characters.\<close>

fun split_ws_aux :: "string \<Rightarrow> string \<Rightarrow> string list" where
  "split_ws_aux cur [] = (if cur = [] then [] else [rev cur])"
| "split_ws_aux cur (c # cs) =
     (if is_space c then (if cur = [] then split_ws_aux [] cs else rev cur # split_ws_aux [] cs)
      else split_ws_aux (c # cur) cs)"

definition split_ws :: "string \<Rightarrow> string list" where
  "split_ws s = split_ws_aux [] s"

text \<open>
  \<open>split_on sep s\<close> is \<open>s.split(sep)\<close> for a separator of one or two characters, the only
  ones the program uses (a line feed and the arrow): the pieces between the non-overlapping
  occurrences of \<open>sep\<close>, read from the left.
\<close>

fun split_on_aux :: "string \<Rightarrow> string \<Rightarrow> string \<Rightarrow> string list" where
  "split_on_aux sep cur [] = [rev cur]"
| "split_on_aux sep cur (c # cs) =
     (if sep \<noteq> [] \<and> startswith (c # cs) sep
      then rev cur # split_on_aux sep [] (drop (length sep) (c # cs))
      else split_on_aux sep (c # cur) cs)"

definition split_on :: "string \<Rightarrow> string \<Rightarrow> string list" where
  "split_on sep s = split_on_aux sep [] s"

section \<open>Configuration, errors and the outside world\<close>

datatype work_mode = Online | Offline

text \<open>
  The fields of \<open>Config\<close> after \<open>create_config\<close>: \<open>validate\<close> has filled in the working
  mode, so it is one of the two modes. Optional arguments keep Python's \<open>None\<close>.
\<close>

record config =
  package_name :: string
  repository_url :: "string option"
  test_repo_path :: "string option"
  work_mode :: work_mode
  max_depth :: "int option"
  filter_substring :: "string option"
  reverse_mode :: bool

text \<open>
  Every failure of the program is a Python \<open>Exception\<close> carrying a message; the constructors
  name the places that raise. \<open>GraphBuildFailed\<close> is the exception that
  \<open>build_complete_dependency_graph\<close> raises around any failure in its body, and
  \<open>RecursionError\<close> is what the interpreter raises when calls nest deeper than it allows.
\<close>

datatype error =
    ReverseUnavailableOnline
  | NoNuspecFiles
  | NotFileOrDirectory
  | PathIsNone
  | UrlIsNone
  | RegistryFailure string
  | XmlParseError
  | MetadataMissing
  | PackageIdMissing
  | NoPackagesLoaded
  | TestRepositoryEmpty
  | OfflineLoadFailed error
  | NuspecFileFailed error
  | GraphBuildFailed error
  | RecursionError

text \<open>
  What \<open>xml.etree.ElementTree\<close> hands to the program: an element with its tag in Clark
  notation, its attributes, its text and its children; a document either parses to its root
  element or raises \<open>ParseError\<close>. An element without text is taken to have the empty
  text (Python has \<open>None\<close> there), which only matters for the \<open>id\<close> of a package.
\<close>

datatype xml =
  Element (tag: string) (attrib: "(string \<times> string) list") (elem_text: string) (children: "xml list")

datatype document = Malformed | Document xml

text \<open>
  A path names a regular file with its text, a directory with the \<open>.nuspec\<close> files that
  \<open>glob\<close> finds below it, or nothing.
\<close>

datatype fs_node = Absent | RegularFile string | Directory "document list"

text \<open>
  The world the program queries: the registry (the HTTP part of
  \<open>NuGetClient.get_package_dependencies\<close>, which yields the text of a \<open>.nuspec\<close> or fails),
  the file system, and the order in which the interpreter enumerates a set of strings built
  from a list (it depends on the string hashes of the running interpreter).
\<close>

record env =
  registry :: "string \<Rightarrow> string \<Rightarrow> error + document"
  filesystem :: "string \<Rightarrow> fs_node"
  set_order :: "string list \<Rightarrow> string list"

text \<open>
  \<open>list(set(xs))\<close>: the elements of \<open>xs\<close>, each once, in the order of the interpreter. The
  field \<open>set_order\<close> is that order; an answer of the field that is not an enumeration without
  repetition of the elements of \<open>xs\<close> is not an order of any interpreter, and \<open>remdups\<close> stands
  in for it.
\<close>

definition list_of_set :: "env \<Rightarrow> string list \<Rightarrow> string list" where
  "list_of_set w xs =
     (let ys = set_order w xs in if distinct ys \<and> set ys = set xs then ys else remdups xs)"

section \<open>Reading \<open>.nuspec\<close> metadata\<close>

definition et_find :: "string \<Rightarrow> xml \<Rightarrow> xml option" where
  "et_find t e = List.find (\<lambda>c. tag c = t) (children e)"

definition et_findall :: "string \<Rightarrow> xml \<Rightarrow> xml list" where
  "et_findall t e = filter (\<lambda>c. tag c = t) (children e)"

text \<open>\<open>root.tag.split('}')[0].strip('{')\<close> when the tag holds a closing brace, else empty.\<close>

definition namespace_of :: "string \<Rightarrow> string" where
  "namespace_of t =
     (if CHR ''}'' \<in> set t
      then rev (dropWhile (\<lambda>c. c = CHR ''{'')
             (rev (dropWhile (\<lambda>c. c = CHR ''{'') (takeWhile (\<lambda>c. c \<noteq> CHR ''}'') t))))
      else [])"

text \<open>The name searched for: \<open>'ns:name'\<close> under the namespace map, or the bare name.\<close>

definition qname :: "string \<Rightarrow> string \<Rightarrow> string" where
  "qname ns name = (if ns \<noteq> [] then ''{'' @ ns @ ''}'' @ name else name)"

definition dep_ids :: "xml list \<Rightarrow> string list" where
  "dep_ids deps =
     concat (map (\<lambda>dep. case map_of (attrib dep) ''id'' of
                           None \<Rightarrow> []
                         | Some dep_id \<Rightarrow> (if dep_id \<noteq> [] then [dep_id] else [])) deps)"

text \<open>The list \<open>dependencies\<close> both parsers collect: grouped entries first, then ungrouped.\<close>

definition collect_dependencies :: "string \<Rightarrow> xml \<Rightarrow> string list" where
  "collect_dependencies ns deps_element =
     concat (map (\<lambda>group. dep_ids (et_findall (qname ns ''dependency'') group))
                 (et_findall (qname ns ''group'') deps_element))
     @ dep_ids (et_findall (qname ns ''dependency'') deps_element)"

text \<open>The list \<open>dependencies\<close> of \<open>parse_nuspec_dependencies\<close> when it reaches its \<open>return\<close>.\<close>

definition declared_dependencies :: "xml \<Rightarrow> string list" where
  "declared_dependencies root =
     (let ns = namespace_of (tag root) in
      case et_find (qname ns ''metadata'') root of
        None \<Rightarrow> []
      | Some metadata \<Rightarrow>
          (case et_find (qname ns ''dependencies'') metadata of
             None \<Rightarrow> []
           | Some deps_element \<Rightarrow> collect_dependencies ns deps_element))"

definition parse_nuspec_dependencies :: "env \<Rightarrow> document \<Rightarrow> error + string list" where
  "parse_nuspec_dependencies w doc =
     (case doc of
        Malformed \<Rightarrow> Inl XmlParseError
      | Document root \<Rightarrow> Inr (list_of_set w (declared_dependencies root)))"

definition parse_nuspec_file :: "env \<Rightarrow> document \<Rightarrow> error + (string \<times> string list)" where
  "parse_nuspec_file w doc =
     (case doc of
        Malformed \<Rightarrow> Inl (NuspecFileFailed XmlParseError)
      | Document root \<Rightarrow>
          (let ns = namespace_of (tag root) in
           case et_find (qname ns ''metadata'') root of
             None \<Rightarrow> Inl (NuspecFileFailed MetadataMissing)
           | Some metadata \<Rightarrow>
               (case et_find (qname ns ''id'') metadata of
                  None \<Rightarrow> Inl (NuspecFileFailed PackageIdMissing)
                | Some package_id \<Rightarrow>
                    (case et_find (qname ns ''dependencies'') metadata of
                       None \<Rightarrow> Inr (elem_text package_id, list_of_set w [])
                     | Some deps_element \<Rightarrow>
                         Inr (elem_text package_id,
                              list_of_set w (collect_dependencies ns deps_element))))))"

section \<open>Dictionaries\<close>

text \<open>
  A Python \<open>dict\<close> keeps its keys in insertion order and the program iterates over them, so
  a dictionary is an association list with distinct keys: \<open>AList.update\<close> is the assignment
  \<open>d[k] = v\<close> (in place for a key already there, at the end for a new one).
\<close>

type_synonym graph = "(string \<times> string list) list"

definition dict_get :: "graph \<Rightarrow> string \<Rightarrow> string list" where
  "dict_get d k = (case map_of d k of None \<Rightarrow> [] | Some v \<Rightarrow> v)"

definition dict_keys :: "graph \<Rightarrow> string list" where
  "dict_keys d = map fst d"

text \<open>\<open>d[k].append(v)\<close> on a \<open>defaultdict(list)\<close>.\<close>

definition dict_append :: "string \<Rightarrow> string \<Rightarrow> graph \<Rightarrow> graph" where
  "dict_append k v d = AList.update k (dict_get d k @ [v]) d"

section \<open>The fixture repositories\<close>

text \<open>One line of the plain-text fixture, as the loop body of \<open>load_test_repository\<close>.\<close>

definition load_line :: "string \<Rightarrow> graph \<Rightarrow> graph" where
  "load_line raw g =
     (let line = strip raw in
      if str_in ''->'' line
      then (let parts = split_on ''->'' line in
            if length parts = 2
            then AList.update (strip (parts ! 0))
                   (map strip (filter (\<lambda>dep. strip dep \<noteq> []) (split_ws (parts ! 1)))) g
            else g)
      else g)"

definition load_test_repository :: "string \<Rightarrow> error + graph" where
  "load_test_repository content =
     (let g = fold load_line (split_on [CHR 0x0A] (strip content)) [] in
      if g = [] then Inl TestRepositoryEmpty else Inr g)"

text \<open>\<open>TestRepository.build_reverse_dependencies\<close>: the two nested loops over the items.\<close>

definition add_reverse_edges :: "string \<Rightarrow> string list \<Rightarrow> graph \<Rightarrow> graph" where
  "add_reverse_edges package dependencies rev_graph =
     fold (\<lambda>dep r. dict_append dep package r) dependencies rev_graph"

definition build_reverse_dependencies :: "graph \<Rightarrow> graph" where
  "build_reverse_dependencies g = fold (\<lambda>(package, dependencies). add_reverse_edges package dependencies) g []"

text \<open>
  \<open>OfflineNuGetRepository\<close>: every file is parsed, a file that fails is reported and left
  out, and a repository with no package is an error. The first component lists the
  failures that were reported on the way.
\<close>

definition load_offline_repository :: "env \<Rightarrow> document list \<Rightarrow> error list \<times> (error + graph)" where
  "load_offline_repository w nuspec_files =
     (if nuspec_files = [] then ([], Inl (OfflineLoadFailed NoNuspecFiles))
      else (let (packages, failures) =
                  fold (\<lambda>doc (ps, fs). case parse_nuspec_file w doc of
                                          Inl e \<Rightarrow> (ps, fs @ [e])
                                        | Inr (name, deps) \<Rightarrow> (AList.update name deps ps, fs))
                       nuspec_files ([], [])
            in if packages = [] then (failures, Inl (OfflineLoadFailed NoPackagesLoaded))
               else (failures, Inr packages)))"

datatype repo_type = TestFormat | NuspecOffline

definition detect_repository_type :: "env \<Rightarrow> string option \<Rightarrow> error + repo_type" where
  "detect_repository_type w repo_path =
     (case repo_path of
        None \<Rightarrow> Inl PathIsNone
      | Some p \<Rightarrow>
          (case filesystem w p of
             RegularFile content \<Rightarrow> Inr TestFormat
           | Directory nuspec_files \<Rightarrow>
               (if nuspec_files \<noteq> [] then Inr NuspecOffline else Inl NoNuspecFiles)
           | Absent \<Rightarrow> Inl NotFileOrDirectory))"

text \<open>Opening the repository behind a path of a known type (the two class constructors).\<close>

definition open_test_repository :: "env \<Rightarrow> string option \<Rightarrow> error + graph" where
  "open_test_repository w repo_path =
     (case repo_path of
        None \<Rightarrow> Inl PathIsNone
      | Some p \<Rightarrow>
          (case filesystem w p of
             RegularFile content \<Rightarrow> load_test_repository content
           | Directory nuspec_files \<Rightarrow> Inl NotFileOrDirectory
           | Absent \<Rightarrow> Inl NotFileOrDirectory))"

definition open_offline_repository :: "env \<Rightarrow> string option \<Rightarrow> error list \<times> (error + graph)" where
  "open_offline_repository w repo_path =
     (case repo_path of
        None \<Rightarrow> ([], Inl PathIsNone)
      | Some p \<Rightarrow>
          (case filesystem w p of
             Directory nuspec_files \<Rightarrow> load_offline_repository w nuspec_files
           | RegularFile content \<Rightarrow> ([], Inl (OfflineLoadFailed NoNuspecFiles))
           | Absent \<Rightarrow> ([], Inl (OfflineLoadFailed NoNuspecFiles))))"

section \<open>The visualizer\<close>

text \<open>What the program prints, one constructor for each message.\<close>

datatype event =
    LookupError string error
  | NuspecLoadError error
  | OfflineRepositoryLoaded nat
  | CycleFound "string list"
  | SkippedPackage string
  | AnalysingPackage string nat
  | BuildingCompleteGraph
  | CompleteGraphBuilt nat nat

text \<open>
  The fields of a \<open>DependencyVisualizer\<close>, with the text printed so far and the number of
  queries made to the outside world so far. The world may differ from one query to the
  next (each lookup opens the registry or re-reads the fixture), so it is a function of that
  number.
\<close>

record visualizer =
  dependency_graph :: graph
  reverse_dependency_graph :: graph
  visited_packages :: "string set"
  cycle_detected :: bool
  stdout :: "event list"
  clock :: nat

type_synonym world = "nat \<Rightarrow> env"

definition init :: "nat \<Rightarrow> visualizer" where
  "init t = \<lparr>dependency_graph = [], reverse_dependency_graph = [], visited_packages = {},
             cycle_detected = False, stdout = [], clock = t\<rparr>"

definition should_skip_package :: "config \<Rightarrow> string \<Rightarrow> bool" where
  "should_skip_package cfg name =
     (case filter_substring cfg of
        None \<Rightarrow> False
      | Some f \<Rightarrow> f \<noteq> [] \<and> str_in (lower f) (lower name))"

text \<open>\<open>self.config.max_depth and current_depth >= self.config.max_depth\<close>.\<close>

definition depth_limit_reached :: "config \<Rightarrow> nat \<Rightarrow> bool" where
  "depth_limit_reached cfg current_depth =
     (case max_depth cfg of None \<Rightarrow> False | Some d \<Rightarrow> d \<noteq> 0 \<and> d \<le> int current_depth)"

definition get_package_dependencies_online :: "env \<Rightarrow> string option \<Rightarrow> string \<Rightarrow> error + string list" where
  "get_package_dependencies_online w url name =
     (case url of
        None \<Rightarrow> Inl UrlIsNone
      | Some u \<Rightarrow>
          (case registry w u name of
             Inl e \<Rightarrow> Inl e
           | Inr doc \<Rightarrow> parse_nuspec_dependencies w doc))"

text \<open>The body of the \<open>try\<close> in \<open>get_dependencies\<close>: what it prints, and its list or its exception.\<close>

definition query_source :: "config \<Rightarrow> env \<Rightarrow> string \<Rightarrow> event list \<times> (error + string list)" where
  "query_source cfg w name =
     (if work_mode cfg = Online
      then ([], get_package_dependencies_online w (repository_url cfg) name)
      else (case detect_repository_type w (test_repo_path cfg) of
              Inl e \<Rightarrow> ([], Inl e)
            | Inr NuspecOffline \<Rightarrow>
                (case open_offline_repository w (test_repo_path cfg) of
                   (failures, Inl e) \<Rightarrow> (map NuspecLoadError failures, Inl e)
                 | (failures, Inr packages) \<Rightarrow>
                     (map NuspecLoadError failures @ [OfflineRepositoryLoaded (length packages)],
                      Inr (dict_get packages name)))
            | Inr TestFormat \<Rightarrow>
                (case open_test_repository w (test_repo_path cfg) of
                   Inl e \<Rightarrow> ([], Inl e)
                 | Inr g \<Rightarrow> ([], Inr (dict_get g name)))))"

definition get_dependencies :: "config \<Rightarrow> env \<Rightarrow> string \<Rightarrow> event list \<times> string list" where
  "get_dependencies cfg w name =
     (case query_source cfg w name of
        (out, Inl e) \<Rightarrow> (out @ [LookupError name e], [])
      | (out, Inr dependencies) \<Rightarrow> (out, dependencies))"

definition print :: "event list \<Rightarrow> visualizer \<Rightarrow> visualizer" where
  "print out st = st\<lparr>stdout := stdout st @ out\<rparr>"

section \<open>Forward traversal\<close>

text \<open>
  \<open>bfs_build_dependency_graph\<close> calls itself from a loop over the dependencies, so it is two
  functions, the second being the loop. The first argument bounds the depth of the calls:
  the result is \<open>None\<close> when the bound is reached, which stands for a recursion that does not
  return (the interpreter's own recursion limit is not modelled). Nothing in the body of the
  \<open>try\<close> raises here, \<open>get_dependencies\<close> having caught every failure of the source itself.
\<close>

fun bfs_build_dependency_graph ::
    "nat \<Rightarrow> config \<Rightarrow> world \<Rightarrow> string \<Rightarrow> nat \<Rightarrow> string list \<Rightarrow> visualizer \<Rightarrow> visualizer option"
  and bfs_dependencies ::
    "nat \<Rightarrow> config \<Rightarrow> world \<Rightarrow> string list \<Rightarrow> nat \<Rightarrow> string list \<Rightarrow> visualizer \<Rightarrow> visualizer option"
where
  "bfs_build_dependency_graph 0 cfg w start_package current_depth path st = None"
| "bfs_build_dependency_graph (Suc fuel) cfg w start_package current_depth path st =
     (if depth_limit_reached cfg current_depth then Some st
      else if start_package \<in> set path
      then Some ((print [CycleFound (path @ [start_package])] st)\<lparr>cycle_detected := True\<rparr>)
      else if should_skip_package cfg start_package
      then Some (print [SkippedPackage start_package] st)
      else if start_package \<in> visited_packages st then Some st
      else (let st1 = st\<lparr>visited_packages := insert start_package (visited_packages st)\<rparr>;
                st2 = print [AnalysingPackage start_package current_depth] st1;
                (out, dependencies) = get_dependencies cfg (w (clock st2)) start_package;
                st3 = (print out st2)\<lparr>clock := Suc (clock st2)\<rparr>;
                st4 = st3\<lparr>dependency_graph :=
                            AList.update start_package dependencies (dependency_graph st3)\<rparr>
            in bfs_dependencies fuel cfg w dependencies (current_depth + 1)
                 (path @ [start_package]) st4))"
| "bfs_dependencies fuel cfg w [] depth path st = Some st"
| "bfs_dependencies fuel cfg w (dep # deps) depth path st =
     (case bfs_build_dependency_graph fuel cfg w dep depth path st of
        None \<Rightarrow> None
      | Some st' \<Rightarrow> bfs_dependencies fuel cfg w deps depth path st')"

text \<open>
  The visualizer as it stands when the loop over the dependencies of \<open>start_package\<close>
  begins: the four assignments above in one step, for use in the proofs.
\<close>

definition expanded :: "config \<Rightarrow> world \<Rightarrow> string \<Rightarrow> nat \<Rightarrow> visualizer \<Rightarrow> visualizer" where
  "expanded cfg w start_package current_depth st =
     st\<lparr>visited_packages := insert start_package (visited_packages st),
        stdout := stdout st @ [AnalysingPackage start_package current_depth]
                    @ fst (get_dependencies cfg (w (clock st)) start_package),
        clock := Suc (clock st),
        dependency_graph :=
          AList.update start_package (snd (get_dependencies cfg (w (clock st)) start_package))
            (dependency_graph st)\<rparr>"

section \<open>Reverse traversal\<close>

text \<open>The body of the package loop in the \<open>.nuspec\<close> branch of the complete build.\<close>

definition record_package :: "graph \<Rightarrow> string \<Rightarrow> visualizer \<Rightarrow> visualizer" where
  "record_package packages package st =
     (let dependencies = dict_get packages package
      in st\<lparr>dependency_graph := AList.update package dependencies (dependency_graph st),
            reverse_dependency_graph :=
              add_reverse_edges package dependencies (reverse_dependency_graph st)\<rparr>)"

definition reverse_links :: "graph \<Rightarrow> nat" where
  "reverse_links r = sum_list (map (\<lambda>(k, deps). length deps) r)"

text \<open>
  \<open>build_complete_dependency_graph\<close> returns the visualizer, or raises; the exception comes
  with the visualizer as it stands then (what was printed stays printed).
\<close>

definition build_complete_dependency_graph ::
    "config \<Rightarrow> world \<Rightarrow> visualizer \<Rightarrow> (error \<times> visualizer) + visualizer" where
  "build_complete_dependency_graph cfg w st =
     (let st1 = print [BuildingCompleteGraph] st in
      if work_mode cfg = Online then Inl (GraphBuildFailed ReverseUnavailableOnline, st1)
      else (let e = w (clock st1); st2 = st1\<lparr>clock := Suc (clock st1)\<rparr> in
            case detect_repository_type e (test_repo_path cfg) of
              Inl err \<Rightarrow> Inl (GraphBuildFailed err, st2)
            | Inr NuspecOffline \<Rightarrow>
                (case open_offline_repository e (test_repo_path cfg) of
                   (failures, Inl err) \<Rightarrow>
                     Inl (GraphBuildFailed err, print (map NuspecLoadError failures) st2)
                 | (failures, Inr packages) \<Rightarrow>
                     (let st3 = print (map NuspecLoadError failures
                                        @ [OfflineRepositoryLoaded (length packages)]) st2;
                          st4 = fold (record_package packages) (dict_keys packages) st3
                      in Inr (print [CompleteGraphBuilt (length (dependency_graph st4))
                                       (reverse_links (reverse_dependency_graph st4))] st4)))
            | Inr TestFormat \<Rightarrow>
                (case open_test_repository e (test_repo_path cfg) of
                   Inl err \<Rightarrow> Inl (GraphBuildFailed err, st2)
                 | Inr g \<Rightarrow>
                     (let st3 = st2\<lparr>dependency_graph := g\<rparr>;
                          st4 = st3\<lparr>reverse_dependency_graph :=
                                      fold (\<lambda>(package, dependencies).
                                              add_reverse_edges package dependencies)
                                           (dependency_graph st3) (reverse_dependency_graph st3)\<rparr>
                      in Inr (print [CompleteGraphBuilt (length (dependency_graph st4))
                                       (reverse_links (reverse_dependency_graph st4))] st4)))))"

fun bfs_build_reverse_dependency_graph ::
    "nat \<Rightarrow> config \<Rightarrow> string \<Rightarrow> nat \<Rightarrow> string list \<Rightarrow> visualizer \<Rightarrow> visualizer option"
  and bfs_dependents ::
    "nat \<Rightarrow> config \<Rightarrow> string list \<Rightarrow> nat \<Rightarrow> string list \<Rightarrow> visualizer \<Rightarrow> visualizer option"
where
  "bfs_build_reverse_dependency_graph 0 cfg start_package current_depth path st = None"
| "bfs_build_reverse_dependency_graph (Suc fuel) cfg start_package current_depth path st =
     (if depth_limit_reached cfg current_depth then Some st
      else if start_package \<in> set path
      then Some ((print [CycleFound (path @ [start_package])] st)\<lparr>cycle_detected := True\<rparr>)
      else if should_skip_package cfg start_package
      then Some (print [SkippedPackage start_package] st)
      else if start_package \<in> visited_packages st then Some st
      else (let st1 = st\<lparr>visited_packages := insert start_package (visited_packages st)\<rparr>;
                st2 = print [AnalysingPackage start_package current_depth] st1;
                dependents = dict_get (reverse_dependency_graph st2) start_package;
                st3 = st2\<lparr>dependency_graph :=
                            AList.update start_package dependents (dependency_graph st2)\<rparr>
            in bfs_dependents fuel cfg dependents (current_depth + 1)
                 (path @ [start_package]) st3))"
| "bfs_dependents fuel cfg [] depth path st = Some st"
| "bfs_dependents fuel cfg (dependent # dependents) depth path st =
     (case bfs_build_reverse_dependency_graph fuel cfg dependent depth path st of
        None \<Rightarrow> None
      | Some st' \<Rightarrow> bfs_dependents fuel cfg dependents depth path st')"

section \<open>Level analysis and the run\<close>

text \<open>
  \<open>calculate_dependency_level\<close> and its loop, which carries \<open>max_child_level\<close>. The graph is
  a \<open>defaultdict\<close> in forward mode, the only mode that computes levels, so reading a missing
  key yields the empty list.
\<close>

fun calculate_dependency_level :: "nat \<Rightarrow> graph \<Rightarrow> string \<Rightarrow> nat option"
  and max_child_level :: "nat \<Rightarrow> graph \<Rightarrow> string list \<Rightarrow> nat \<Rightarrow> nat option"
where
  "calculate_dependency_level 0 g package = None"
| "calculate_dependency_level (Suc fuel) g package =
     (if dict_get g package = [] then Some 0
      else map_option Suc (max_child_level fuel g (dict_get g package) 0))"
| "max_child_level fuel g [] m = Some m"
| "max_child_level fuel g (dep # deps) m =
     (if dep \<in> set (dict_keys g)
      then (case calculate_dependency_level fuel g dep of
              None \<Rightarrow> None
            | Some child_level \<Rightarrow> max_child_level fuel g deps (max m child_level))
      else max_child_level fuel g deps m)"

text \<open>The levels that \<open>display_detailed_analysis\<close> computes, one for each key, in forward mode.\<close>

definition dependency_levels :: "nat \<Rightarrow> graph \<Rightarrow> (string \<times> nat) list option" where
  "dependency_levels fuel g =
     those (map (\<lambda>package. map_option (Pair package) (calculate_dependency_level fuel g package))
                (dict_keys g))"

text \<open>
  \<open>run\<close>, from the validated configuration on: the graph is built in the chosen direction and
  handed to the two display methods, of which only the level computation is modelled. An
  exception that reaches \<open>run\<close> is printed and the process exits with status 1. The level
  computation has no \<open>try\<close> of its own: when it nests deeper than the bound, the
  \<open>RecursionError\<close> of the interpreter reaches \<open>run\<close>, which is what happens for every bound on a
  map that holds a cycle.
\<close>

datatype outcome = Completed visualizer "(string \<times> nat) list" | Exit1 error visualizer

definition run :: "nat \<Rightarrow> config \<Rightarrow> world \<Rightarrow> nat \<Rightarrow> outcome option" where
  "run fuel cfg w t =
     (if reverse_mode cfg
      then (case build_complete_dependency_graph cfg w (init t) of
              Inl (e, st1) \<Rightarrow> Some (Exit1 e st1)
            | Inr st1 \<Rightarrow>
                (case bfs_build_reverse_dependency_graph fuel cfg (package_name cfg) 0 [] st1 of
                   None \<Rightarrow> None
                 | Some st2 \<Rightarrow> Some (Completed st2 [])))
      else (case bfs_build_dependency_graph fuel cfg w (package_name cfg) 0 [] (init t) of
              None \<Rightarrow> None
            | Some st2 \<Rightarrow>
                (case dependency_levels fuel (dependency_graph st2) of
                   None \<Rightarrow> Some (Exit1 RecursionError st2)
                 | Some levels \<Rightarrow> Some (Completed st2 levels))))"

section \<open>Notions used in the statements\<close>

text \<open>
  \<open>is_chain g p\<close>: every node of \<open>p\<close> after the first is in the list that \<open>g\<close> records for
  the node before it, so \<open>p\<close> is a path of \<open>length p - 1\<close> recorded edges.
\<close>

fun is_chain :: "graph \<Rightarrow> string list \<Rightarrow> bool" where
  "is_chain g [] = True"
| "is_chain g [x] = True"
| "is_chain g (x # y # zs) = (y \<in> set (dict_get g x) \<and> is_chain g (y # zs))"

text \<open>
  The invariant of a depth-limited forward build from \<open>root\<close>: the keys are the visited
  packages, and each of them ends a chain of fewer than \<open>lim\<close> recorded edges that starts
  at \<open>root\<close>.
\<close>

definition rooted :: "string \<Rightarrow> int \<Rightarrow> visualizer \<Rightarrow> bool" where
  "rooted root lim st \<longleftrightarrow>
     set (dict_keys (dependency_graph st)) = visited_packages st \<and>
     (\<forall>k \<in> set (dict_keys (dependency_graph st)).
        \<exists>p. is_chain (dependency_graph st) (p @ [k]) \<and> hd (p @ [k]) = root \<and> int (length p) < lim)"

text \<open>The graph a source describes, for a lookup function \<open>deps\<close>, and what a root reaches in it.\<close>

definition source_edges :: "(string \<Rightarrow> string list) \<Rightarrow> (string \<times> string) set" where
  "source_edges deps = {(a, b). b \<in> set (deps a)}"

definition reachable :: "(string \<Rightarrow> string list) \<Rightarrow> string \<Rightarrow> string set" where
  "reachable deps root = (source_edges deps)\<^sup>* `` {root}"

text \<open>
  The invariant of an unrestricted forward build over a source that answers \<open>deps\<close>: the map
  holds the source's list for exactly the visited packages, the packages on the current path
  are visited, every visited package off the path has all its dependencies visited, and only
  packages that \<open>root\<close> reaches are visited.
\<close>

definition explored :: "(string \<Rightarrow> string list) \<Rightarrow> string \<Rightarrow> string list \<Rightarrow> visualizer \<Rightarrow> bool" where
  "explored deps root path st \<longleftrightarrow>
     map_of (dependency_graph st) = (\<lambda>k. if k \<in> visited_packages st then Some (deps k) else None) \<and>
     set path \<subseteq> visited_packages st \<and>
     (\<forall>n \<in> visited_packages st - set path. set (deps n) \<subseteq> visited_packages st) \<and>
     visited_packages st \<subseteq> reachable deps root"

text \<open>Two visualizers that differ at most in what they printed and in the clock.\<close>

definition same_graph :: "visualizer \<Rightarrow> visualizer \<Rightarrow> bool" where
  "same_graph a b \<longleftrightarrow>
     dependency_graph a = dependency_graph b \<and> visited_packages a = visited_packages b \<and>
     cycle_detected a = cycle_detected b"

text \<open>
  How a reverse traversal changes the visualizer: the reverse index stays, and the map is
  overwritten, with the list of dependents, exactly at the packages visited on the way.
\<close>

definition overwritten :: "visualizer \<Rightarrow> visualizer \<Rightarrow> bool" where
  "overwritten st st' \<longleftrightarrow>
     reverse_dependency_graph st' = reverse_dependency_graph st \<and>
     visited_packages st \<subseteq> visited_packages st' \<and>
     (\<forall>k. map_of (dependency_graph st') k =
            (if k \<in> visited_packages st' - visited_packages st
             then Some (dict_get (reverse_dependency_graph st) k)
             else map_of (dependency_graph st) k))"

text \<open>
  The edges the level computation follows: from a package to those of its recorded
  dependencies that are keys of the map.
\<close>

definition level_edges :: "graph \<Rightarrow> (string \<times> string) set" where
  "level_edges g = {(a, b). b \<in> set (dict_get g a) \<and> b \<in> set (dict_keys g)}"

text \<open>Every list in a map is an answer that the source gave, at some time, for its key.\<close>

definition from_source :: "config \<Rightarrow> world \<Rightarrow> graph \<Rightarrow> bool" where
  "from_source cfg w g \<longleftrightarrow>
     (\<forall>k ds. map_of g k = Some ds \<longrightarrow> (\<exists>t. ds = snd (get_dependencies cfg (w t) k)))"

text \<open>
  The name under which \<open>load_offline_repository\<close> stores the package of a \<open>.nuspec\<close> file, for
  a file that it can read.
\<close>

definition nuspec_id :: "env \<Rightarrow> document \<Rightarrow> string option" where
  "nuspec_id e d = (case parse_nuspec_file e d of Inl err \<Rightarrow> None | Inr (name, deps) \<Rightarrow> Some name)"

section \<open>Example worlds\<close>

text \<open>A world that never changes and holds one plain-text fixture at \<open>repo.txt\<close>.\<close>

definition fixture_env :: "string \<Rightarrow> env" where
  "fixture_env content =
     \<lparr>registry = (\<lambda>url name. Inl (RegistryFailure [])),
      filesystem = (\<lambda>p. if p = ''repo.txt'' then RegularFile content else Absent),
      set_order = remdups\<rparr>"

definition offline_config :: "string \<Rightarrow> config" where
  "offline_config root =
     \<lparr>package_name = root, repository_url = None, test_repo_path = Some ''repo.txt'',
      work_mode = Offline, max_depth = None, filter_substring = None, reverse_mode = False\<rparr>"

text \<open>The first three lines of \<open>cycle_test.txt\<close>.\<close>

definition cycle_text :: string where
  "cycle_text = ''A -> B'' @ [CHR 0x0A] @ ''B -> C'' @ [CHR 0x0A] @ ''C -> A''"

definition edge_text :: string where
  "edge_text = ''A -> B''"

text \<open>A fixture with a short and a long way from \<open>A\<close> to \<open>D\<close>.\<close>

definition shortcut_text :: string where
  "shortcut_text = ''A -> B D C'' @ [CHR 0x0A] @ ''B -> C'' @ [CHR 0x0A] @ ''C -> D''"

text \<open>The configuration of an online run against the public registry.\<close>

definition online_config :: "string \<Rightarrow> config" where
  "online_config root =
     \<lparr>package_name = root, repository_url = Some ''https://api.nuget.org/v3/index.json'',
      test_repo_path = None, work_mode = Online, max_depth = None, filter_substring = None,
      reverse_mode = False\<rparr>"

text \<open>A fixture in which \<open>C\<close> has two dependents and \<open>D\<close> has none.\<close>

definition fan_text :: string where
  "fan_text = ''A -> B'' @ [CHR 0x0A] @ ''B -> C'' @ [CHR 0x0A] @ ''D -> C''"

text \<open>A fixture line that names a dependency twice.\<close>

definition dup_text :: string where
  "dup_text = ''A -> B B''"

text \<open>
  A \<open>.nuspec\<close> document that declares \<open>X\<close>, \<open>Y\<close> and again \<open>X\<close>, and a world whose registry
  serves it for every name and whose sets enumerate as \<open>remdups\<close> does.
\<close>

definition sample_nuspec :: xml where
  "sample_nuspec =
     Element ''{http://schemas.microsoft.com/packaging/2013/05/nuspec.xsd}package'' [] []
       [Element ''{http://schemas.microsoft.com/packaging/2013/05/nuspec.xsd}metadata'' [] []
          [Element ''{http://schemas.microsoft.com/packaging/2013/05/nuspec.xsd}id'' [] ''P'' [],
           Element ''{http://schemas.microsoft.com/packaging/2013/05/nuspec.xsd}dependencies'' [] []
             [Element ''{http://schemas.microsoft.com/packaging/2013/05/nuspec.xsd}group''
                [(''targetFramework'', ''net6.0'')] []
                [Element ''{http://schemas.microsoft.com/packaging/2013/05/nuspec.xsd}dependency''
                   [(''id'', ''X''), (''version'', ''1.0'')] [] [],
                 Element ''{http://schemas.microsoft.com/packaging/2013/05/nuspec.xsd}dependency''
                   [(''id'', ''Y''), (''version'', ''1.0'')] [] []],
              Element ''{http://schemas.microsoft.com/packaging/2013/05/nuspec.xsd}group''
                [(''targetFramework'', ''netstandard2.0'')] []
                [Element ''{http://schemas.microsoft.com/packaging/2013/05/nuspec.xsd}dependency''
                   [(''id'', ''X''), (''version'', ''1.0'')] [] []]]]]"

definition registry_env :: "xml \<Rightarrow> env" where
  "registry_env x =
     \<lparr>registry = (\<lambda>url name. Inr (Document x)), filesystem = (\<lambda>p. Absent), set_order = remdups\<rparr>"

text \<open>
  A \<open>.nuspec\<close> document without a namespace that declares \<open>Z\<close> twice and \<open>W\<close>, outside any
  group, and a world that never changes and holds a directory of \<open>.nuspec\<close> files at
  \<open>packages\<close>, with the configuration of an offline run over it.
\<close>

definition plain_nuspec :: xml where
  "plain_nuspec =
     Element ''package'' [] []
       [Element ''metadata'' [] []
          [Element ''id'' [] ''Q'' [],
           Element ''dependencies'' [] []
             [Element ''dependency'' [(''id'', ''Z''), (''version'', ''1.0'')] [] [],
              Element ''dependency'' [(''id'', ''Z''), (''version'', ''2.0'')] [] [],
              Element ''dependency'' [(''id'', ''W''), (''version'', ''1.0'')] [] []]]]"

definition directory_env :: "document list \<Rightarrow> env" where
  "directory_env docs =
     \<lparr>registry = (\<lambda>url name. Inl (RegistryFailure [])),
      filesystem = (\<lambda>p. if p = ''packages'' then Directory docs else Absent),
      set_order = remdups\<rparr>"

definition directory_config :: "string \<Rightarrow> config" where
  "directory_config root =
     \<lparr>package_name = root, repository_url = None, test_repo_path = Some ''packages'',
      work_mode = Offline, max_depth = None, filter_substring = None, reverse_mode = False\<rparr>"

text \<open>A fixture whose file order differs from the order of a traversal from \<open>A\<close>.\<close>

definition order_text :: string where
  "order_text = ''B -> D'' @ [CHR 0x0A] @ ''C -> D'' @ [CHR 0x0A] @ ''A -> C B''"

section \<open>Facts about the forward traversal\<close>

text \<open>The step of the traversal in terms of \<open>expanded\<close>.\<close>

lemma bfs_build_Suc:
  "bfs_build_dependency_graph (Suc fuel) cfg w s d p st =
     (if depth_limit_reached cfg d then Some st
      else if s \<in> set p
      then Some ((print [CycleFound (p @ [s])] st)\<lparr>cycle_detected := True\<rparr>)
      else if should_skip_package cfg s then Some (print [SkippedPackage s] st)
      else if s \<in> visited_packages st then Some st
      else bfs_dependencies fuel cfg w (snd (get_dependencies cfg (w (clock st)) s)) (Suc d)
             (p @ [s]) (expanded cfg w s d st))"
  by (simp add: expanded_def print_def Let_def split: prod.splits)

declare bfs_build_dependency_graph.simps(2) [simp del]

text \<open>
  Induction over the recursion bound and, within one bound, over the list of a loop: the
  scheme of every proof about the two traversals.
\<close>

lemma bfs_fuel_induct:
  assumes zero: "\<And>s d p st. P 0 s d p st"
    and build: "\<And>fuel s d p st. (\<And>ds d' p' st'. Q fuel ds d' p' st') \<Longrightarrow> P (Suc fuel) s d p st"
    and nil: "\<And>fuel d p st. Q fuel [] d p st"
    and cons: "\<And>fuel x ds d p st. P fuel x d p st \<Longrightarrow> (\<And>st'. Q fuel ds d p st') \<Longrightarrow> Q fuel (x # ds) d p st"
  shows "P fuel s d p st" and "Q fuel ds d p st"
proof -
  have "(\<forall>s d p st. P fuel s d p st) \<and> (\<forall>ds d p st. Q fuel ds d p st)"
  proof (induction fuel)
    case 0
    have q: "Q 0 ds d p st" for ds d p st
      by (induction ds arbitrary: st) (auto intro: nil cons zero)
    show ?case using zero q by blast
  next
    case (Suc fuel)
    have p: "P (Suc fuel) s d p st" for s d p st
      using Suc by (auto intro: build)
    have q: "Q (Suc fuel) ds d p st" for ds d p st
      by (induction ds arbitrary: st) (auto intro: nil cons p)
    show ?case using p q by blast
  qed
  then show "P fuel s d p st" and "Q fuel ds d p st" by blast+
qed

text \<open>A larger recursion bound does not change a result.\<close>

lemma bfs_mono:
  "bfs_build_dependency_graph fuel cfg w s d p st = Some st' \<Longrightarrow>
     bfs_build_dependency_graph (fuel + k) cfg w s d p st = Some st'"
  "bfs_dependencies fuel cfg w ds d p st = Some st' \<Longrightarrow>
     bfs_dependencies (fuel + k) cfg w ds d p st = Some st'"
proof (induct fuel s d p st and fuel ds d p st arbitrary: st' and st' rule: bfs_fuel_induct)
  case (1 s d p st)
  then show ?case by simp
next
  case (2 fuel s d p st)
  then show ?case by (simp add: bfs_build_Suc split: if_splits)
next
  case (3 fuel d p st)
  then show ?case by simp
next
  case (4 fuel x ds d p st)
  then show ?case by (auto split: option.splits)
qed

lemma print_fields [simp]:
  "dependency_graph (print out st) = dependency_graph st"
  "reverse_dependency_graph (print out st) = reverse_dependency_graph st"
  "visited_packages (print out st) = visited_packages st"
  "cycle_detected (print out st) = cycle_detected st"
  "clock (print out st) = clock st"
  "stdout (print out st) = stdout st @ out"
  by (simp_all add: print_def)

lemma expanded_fields [simp]:
  "dependency_graph (expanded cfg w s d st) =
     AList.update s (snd (get_dependencies cfg (w (clock st)) s)) (dependency_graph st)"
  "reverse_dependency_graph (expanded cfg w s d st) = reverse_dependency_graph st"
  "visited_packages (expanded cfg w s d st) = insert s (visited_packages st)"
  "cycle_detected (expanded cfg w s d st) = cycle_detected st"
  "clock (expanded cfg w s d st) = Suc (clock st)"
  by (simp_all add: expanded_def)

lemma dict_keys_update [simp]:
  "set (dict_keys (AList.update k v g)) = insert k (set (dict_keys g))"
  by (auto simp: dict_keys_def update_keys)

text \<open>
  The path of a call is duplicate-free and made of packages with dependencies, so the depth
  of the calls is bounded by the number of such packages.
\<close>

lemma bfs_returns:
  assumes supp: "\<And>t n. n \<notin> set ks \<Longrightarrow> snd (get_dependencies cfg (w t) n) = []"
  shows "distinct p \<Longrightarrow> set p \<subseteq> set ks \<Longrightarrow> card (set ks) < fuel + length p \<Longrightarrow>
           bfs_build_dependency_graph fuel cfg w s d p st \<noteq> None"
    and "ds = [] \<or> (distinct p \<and> set p \<subseteq> set ks \<and> card (set ks) < fuel + length p) \<Longrightarrow>
           bfs_dependencies fuel cfg w ds d p st \<noteq> None"
proof (induct fuel s d p st and fuel ds d p st rule: bfs_fuel_induct)
  case (1 s d p st)
  have "length p = card (set p)" using 1 by (simp add: distinct_card)
  also have "\<dots> \<le> card (set ks)" using 1 by (simp add: card_mono)
  finally show ?case using 1 by simp
next
  case (2 fuel s d p st)
  show ?case
  proof (cases "s \<in> set ks")
    case True
    with 2 show ?thesis by (simp add: bfs_build_Suc)
  next
    case False
    with 2 supp show ?thesis by (simp add: bfs_build_Suc)
  qed
next
  case (3 fuel d p st)
  then show ?case by simp
next
  case (4 fuel x ds d p st)
  then show ?case by (auto split: option.splits)
qed

text \<open>From a fresh visualizer on, the keys of the map are the visited packages, and entries stay.\<close>

lemma bfs_keys_visited:
  "bfs_build_dependency_graph fuel cfg w s d p st = Some st' \<Longrightarrow>
     set (dict_keys (dependency_graph st)) = visited_packages st \<Longrightarrow>
     set (dict_keys (dependency_graph st')) = visited_packages st'
     \<and> visited_packages st \<subseteq> visited_packages st'
     \<and> map_of (dependency_graph st) \<subseteq>\<^sub>m map_of (dependency_graph st')"
  "bfs_dependencies fuel cfg w ds d p st = Some st' \<Longrightarrow>
     set (dict_keys (dependency_graph st)) = visited_packages st \<Longrightarrow>
     set (dict_keys (dependency_graph st')) = visited_packages st'
     \<and> visited_packages st \<subseteq> visited_packages st'
     \<and> map_of (dependency_graph st) \<subseteq>\<^sub>m map_of (dependency_graph st')"
proof (induct fuel s d p st and fuel ds d p st arbitrary: st' and st' rule: bfs_fuel_induct)
  case (1 s d p st)
  then show ?case by simp
next
  case (2 fuel s d p st)
  show ?case
  proof (cases "depth_limit_reached cfg d \<or> s \<in> set p \<or> should_skip_package cfg s \<or> s \<in> visited_packages st")
    case True
    with 2(2,3) show ?thesis by (auto simp: bfs_build_Suc split: if_splits)
  next
    case False
    let ?e = "expanded cfg w s d st"
    from False 2(2) have run: "bfs_dependencies fuel cfg w (snd (get_dependencies cfg (w (clock st)) s)) (Suc d) (p @ [s]) ?e = Some st'"
      by (simp add: bfs_build_Suc)
    have pre: "set (dict_keys (dependency_graph ?e)) = visited_packages ?e"
      using 2(3) by simp
    from 2(1)[OF run pre] have post: "set (dict_keys (dependency_graph st')) = visited_packages st'"
      "visited_packages ?e \<subseteq> visited_packages st'"
      "map_of (dependency_graph ?e) \<subseteq>\<^sub>m map_of (dependency_graph st')" by auto
    have "s \<notin> dom (map_of (dependency_graph st))"
      using False 2(3) by (simp add: dict_keys_def dom_map_of_conv_image_fst)
    then have "map_of (dependency_graph st) \<subseteq>\<^sub>m map_of (dependency_graph ?e)"
      by (auto simp: map_le_def update_conv')
    with post show ?thesis by (auto intro: map_le_trans)
  qed
next
  case (3 fuel d p st)
  then show ?case by simp
next
  case (4 fuel x ds d p st)
  from 4(3) obtain st1 where a: "bfs_build_dependency_graph fuel cfg w x d p st = Some st1"
    and b: "bfs_dependencies fuel cfg w ds d p st1 = Some st'"
    by (auto split: option.splits)
  from 4(1)[OF a 4(4)] 4(2)[OF b] show ?case by (auto intro: map_le_trans)
qed

lemma is_chain_snoc:
  "is_chain g (c @ [a]) \<Longrightarrow> b \<in> set (dict_get g a) \<Longrightarrow> is_chain g (c @ [a, b])"
  by (induction g c rule: is_chain.induct) auto

lemma dict_get_mono:
  "map_of g \<subseteq>\<^sub>m map_of g' \<Longrightarrow> y \<in> set (dict_get g x) \<Longrightarrow> y \<in> set (dict_get g' x)"
proof -
  assume le: "map_of g \<subseteq>\<^sub>m map_of g'" and y: "y \<in> set (dict_get g x)"
  from y obtain l where l: "map_of g x = Some l"
    by (cases "map_of g x") (auto simp: dict_get_def)
  with le have "map_of g' x = Some l"
    by (metis domI map_le_def)
  with l y show ?thesis by (simp add: dict_get_def)
qed

lemma is_chain_mono:
  "map_of g \<subseteq>\<^sub>m map_of g' \<Longrightarrow> is_chain g c \<Longrightarrow> is_chain g' c"
  by (induction g c rule: is_chain.induct) (auto dest: dict_get_mono)

lemma dict_get_update [simp]:
  "dict_get (AList.update k v g) k' = (if k' = k then v else dict_get g k')"
  by (simp add: dict_get_def update_conv')

lemma rooted_mono:
  assumes "rooted root lim st" and le: "map_of (dependency_graph st) \<subseteq>\<^sub>m map_of (dependency_graph st')"
    and "set (dict_keys (dependency_graph st')) = visited_packages st'"
    and new: "\<And>k. k \<in> visited_packages st' \<Longrightarrow> k \<notin> visited_packages st \<Longrightarrow>
       \<exists>p. is_chain (dependency_graph st') (p @ [k]) \<and> hd (p @ [k]) = root \<and> int (length p) < lim"
  shows "rooted root lim st'"
  unfolding rooted_def
proof (intro conjI ballI)
  show "set (dict_keys (dependency_graph st')) = visited_packages st'" by fact
next
  fix k assume k: "k \<in> set (dict_keys (dependency_graph st'))"
  show "\<exists>p. is_chain (dependency_graph st') (p @ [k]) \<and> hd (p @ [k]) = root \<and> int (length p) < lim"
  proof (cases "k \<in> visited_packages st")
    case True
    with assms(1) obtain p where "is_chain (dependency_graph st) (p @ [k])" "hd (p @ [k]) = root" "int (length p) < lim"
      unfolding rooted_def by blast
    with le show ?thesis by (blast intro: is_chain_mono)
  next
    case False
    with k assms(3) new show ?thesis by simp
  qed
qed

lemma bfs_rooted:
  assumes lim: "max_depth cfg = Some lim" "0 < lim"
  shows "bfs_build_dependency_graph fuel cfg w s d p st = Some st' \<Longrightarrow> rooted root lim st \<Longrightarrow>
     is_chain (dependency_graph st) (p @ [s]) \<Longrightarrow> hd (p @ [s]) = root \<Longrightarrow> length p = d \<Longrightarrow>
     rooted root lim st'"
  and "bfs_dependencies fuel cfg w ds d p st = Some st' \<Longrightarrow> rooted root lim st \<Longrightarrow>
     (\<forall>x \<in> set ds. is_chain (dependency_graph st) (p @ [x])) \<Longrightarrow> (ds \<noteq> [] \<longrightarrow> p \<noteq> [] \<and> hd p = root) \<Longrightarrow> length p = d \<Longrightarrow>
     rooted root lim st'"
proof (induct fuel s d p st and fuel ds d p st arbitrary: st' and st' rule: bfs_fuel_induct)
  case (1 s d p st)
  then show ?case by simp
next
  case (2 fuel s d p st)
  show ?case
  proof (cases "depth_limit_reached cfg d \<or> s \<in> set p \<or> should_skip_package cfg s \<or> s \<in> visited_packages st")
    case True
    with 2(2,3) show ?thesis by (auto simp: bfs_build_Suc rooted_def split: if_splits)
  next
    case False
    let ?deps = "snd (get_dependencies cfg (w (clock st)) s)"
    let ?e = "expanded cfg w s d st"
    from False 2(2) have run: "bfs_dependencies fuel cfg w ?deps (Suc d) (p @ [s]) ?e = Some st'"
      by (simp add: bfs_build_Suc)
    have kv: "set (dict_keys (dependency_graph st)) = visited_packages st"
      using 2(3) by (simp add: rooted_def)
    have "s \<notin> dom (map_of (dependency_graph st))"
      using False kv by (simp add: dict_keys_def dom_map_of_conv_image_fst)
    then have le: "map_of (dependency_graph st) \<subseteq>\<^sub>m map_of (dependency_graph ?e)"
      by (auto simp: map_le_def update_conv')
    have chain: "is_chain (dependency_graph ?e) (p @ [s])"
      using le 2(4) by (rule is_chain_mono)
    have "int d < lim" using False lim by (simp add: depth_limit_reached_def)
    then have r: "rooted root lim ?e"
      using 2(3,5,6) chain le kv by (intro rooted_mono[OF 2(3) le]) auto
    have "\<forall>x \<in> set ?deps. is_chain (dependency_graph ?e) ((p @ [s]) @ [x])"
      using is_chain_snoc[OF chain] by simp
    moreover have "hd (p @ [s]) = root" by fact
    ultimately show ?thesis
      using 2(1)[OF run r] 2(6) by simp
  qed
next
  case (3 fuel d p st)
  then show ?case by simp
next
  case (4 fuel x ds d p st)
  from 4(3) obtain st1 where a: "bfs_build_dependency_graph fuel cfg w x d p st = Some st1"
    and b: "bfs_dependencies fuel cfg w ds d p st1 = Some st'"
    by (auto split: option.splits)
  have kv: "set (dict_keys (dependency_graph st)) = visited_packages st"
    using 4(4) by (simp add: rooted_def)
  have hdp: "hd (p @ [x]) = root" using 4(6) by (cases p) auto
  have r1: "rooted root lim st1"
    using 4(1)[OF a 4(4)] 4(5) hdp 4(7) by simp
  have le: "map_of (dependency_graph st) \<subseteq>\<^sub>m map_of (dependency_graph st1)"
    using bfs_keys_visited(1)[OF a kv] by simp
  have "\<forall>y \<in> set ds. is_chain (dependency_graph st1) (p @ [y])"
    using 4(5) le by (auto intro: is_chain_mono)
  then show ?case using 4(2)[OF b r1] 4(6,7) by simp
qed

lemma reachable_step: "a \<in> reachable deps root \<Longrightarrow> b \<in> set (deps a) \<Longrightarrow> b \<in> reachable deps root"
  by (auto simp: reachable_def source_edges_def intro: rtrancl_into_rtrancl)

lemma no_limit [simp]: "max_depth cfg = None \<Longrightarrow> \<not> depth_limit_reached cfg d"
  by (simp add: depth_limit_reached_def)

lemma no_filter [simp]: "filter_substring cfg = None \<Longrightarrow> \<not> should_skip_package cfg n"
  by (simp add: should_skip_package_def)

text \<open>The unrestricted forward build visits what the root reaches, and records the source.\<close>

lemma bfs_explored:
  assumes nolim: "max_depth cfg = None" and nofilter: "filter_substring cfg = None"
    and const: "\<And>t n. snd (get_dependencies cfg (w t) n) = deps n"
  shows "bfs_build_dependency_graph fuel cfg w s d p st = Some st' \<Longrightarrow> explored deps root p st \<Longrightarrow>
     s \<in> reachable deps root \<Longrightarrow>
     explored deps root p st' \<and> s \<in> visited_packages st' \<and> visited_packages st \<subseteq> visited_packages st'"
  and "bfs_dependencies fuel cfg w ds d p st = Some st' \<Longrightarrow> explored deps root p st \<Longrightarrow>
     set ds \<subseteq> reachable deps root \<Longrightarrow>
     explored deps root p st' \<and> set ds \<subseteq> visited_packages st' \<and> visited_packages st \<subseteq> visited_packages st'"
proof (induct fuel s d p st and fuel ds d p st arbitrary: st' and st' rule: bfs_fuel_induct)
  case (1 s d p st)
  then show ?case by simp
next
  case (2 fuel s d p st)
  show ?case
  proof (cases "s \<in> set p \<or> s \<in> visited_packages st")
    case True
    with 2(2) nolim nofilter have same: "dependency_graph st' = dependency_graph st"
      "visited_packages st' = visited_packages st"
      by (auto simp: bfs_build_Suc split: if_splits)
    then have "explored deps root p st'" using 2(3) by (simp add: explored_def)
    moreover have "s \<in> visited_packages st" using True 2(3) by (auto simp: explored_def)
    ultimately show ?thesis using same by simp
  next
    case False
    let ?e = "expanded cfg w s d st"
    from False 2(2) nolim nofilter have run: "bfs_dependencies fuel cfg w (deps s) (Suc d) (p @ [s]) ?e = Some st'"
      by (simp add: bfs_build_Suc const)
    have e: "explored deps root (p @ [s]) ?e"
      unfolding explored_def
    proof (intro conjI)
      show "map_of (dependency_graph ?e) = (\<lambda>k. if k \<in> visited_packages ?e then Some (deps k) else None)"
        using 2(3) by (auto simp: explored_def const update_conv' fun_eq_iff)
      show "set (p @ [s]) \<subseteq> visited_packages ?e"
        using 2(3) by (auto simp: explored_def)
      show "\<forall>n\<in>visited_packages ?e - set (p @ [s]). set (deps n) \<subseteq> visited_packages ?e"
        using 2(3) by (fastforce simp: explored_def)
      show "visited_packages ?e \<subseteq> reachable deps root"
        using 2(3,4) by (auto simp: explored_def)
    qed
    have sub: "set (deps s) \<subseteq> reachable deps root"
      using 2(4) by (auto intro: reachable_step)
    from 2(1)[OF run e sub] have post: "explored deps root (p @ [s]) st'"
      "set (deps s) \<subseteq> visited_packages st'" "insert s (visited_packages st) \<subseteq> visited_packages st'"
      by simp_all
    have "explored deps root p st'"
      unfolding explored_def
    proof (intro conjI)
      show "map_of (dependency_graph st') = (\<lambda>k. if k \<in> visited_packages st' then Some (deps k) else None)"
        using post(1) by (simp add: explored_def)
      show "set p \<subseteq> visited_packages st'"
        using post(1) by (simp add: explored_def)
      show "\<forall>n\<in>visited_packages st' - set p. set (deps n) \<subseteq> visited_packages st'"
      proof
        fix n assume n: "n \<in> visited_packages st' - set p"
        show "set (deps n) \<subseteq> visited_packages st'"
        proof (cases "n = s")
          case True
          with post(2) show ?thesis by simp
        next
          case False
          with n have "n \<in> visited_packages st' - set (p @ [s])" by simp
          with post(1) show ?thesis unfolding explored_def by blast
        qed
      qed
      show "visited_packages st' \<subseteq> reachable deps root"
        using post(1) by (simp add: explored_def)
    qed
    with post show ?thesis by auto
  qed
next
  case (3 fuel d p st)
  then show ?case by simp
next
  case (4 fuel x ds d p st)
  from 4(3) obtain st1 where a: "bfs_build_dependency_graph fuel cfg w x d p st = Some st1"
    and b: "bfs_dependencies fuel cfg w ds d p st1 = Some st'"
    by (auto split: option.splits)
  from 4(1)[OF a 4(4)] 4(5) have s1: "explored deps root p st1" "x \<in> visited_packages st1"
    "visited_packages st \<subseteq> visited_packages st1" by auto
  from 4(2)[OF b s1(1)] 4(5) s1 show ?case by auto
qed

lemma explored_init: "explored deps root [] (init t)"
  by (simp add: explored_def init_def)

lemma closed_reach:
  assumes "root \<in> V" and "\<forall>n \<in> V. set (deps n) \<subseteq> V"
  shows "reachable deps root \<subseteq> V"
proof
  fix x assume "x \<in> reachable deps root"
  then have "(root, x) \<in> (source_edges deps)\<^sup>*" by (simp add: reachable_def)
  then show "x \<in> V"
    by (induction rule: rtrancl_induct) (use assms in \<open>auto simp: source_edges_def\<close>)
qed

lemma forward_build_complete:
  assumes nolim: "max_depth cfg = None" and nofilter: "filter_substring cfg = None"
    and const: "\<And>t n. snd (get_dependencies cfg (w t) n) = deps n"
    and run: "bfs_build_dependency_graph fuel cfg w root 0 [] (init t) = Some st"
  shows "visited_packages st = reachable deps root"
    and "map_of (dependency_graph st) = (\<lambda>k. if k \<in> reachable deps root then Some (deps k) else None)"
proof -
  have r: "root \<in> reachable deps root" by (simp add: reachable_def)
  from bfs_explored(1)[OF nolim nofilter const run explored_init r]
  have ex: "explored deps root [] st" and rv: "root \<in> visited_packages st" by auto
  from ex have "reachable deps root \<subseteq> visited_packages st"
    by (intro closed_reach rv) (auto simp: explored_def)
  with ex show v: "visited_packages st = reachable deps root" by (auto simp: explored_def)
  with ex show "map_of (dependency_graph st) = (\<lambda>k. if k \<in> reachable deps root then Some (deps k) else None)"
    by (simp add: explored_def)
qed

text \<open>Over a deterministic source, visualizers with the same graph stay so.\<close>

lemma bfs_simulation:
  assumes det: "\<And>t t' n. snd (get_dependencies cfg (w t) n) = snd (get_dependencies cfg (w t') n)"
  shows "same_graph st sa \<Longrightarrow>
     rel_option same_graph (bfs_build_dependency_graph fuel cfg w s d p st)
       (bfs_build_dependency_graph fuel cfg w s d p sa)"
  and "same_graph st sa \<Longrightarrow>
     rel_option same_graph (bfs_dependencies fuel cfg w ds d p st)
       (bfs_dependencies fuel cfg w ds d p sa)"
proof (induct fuel s d p st and fuel ds d p st arbitrary: sa and sa rule: bfs_fuel_induct)
  case (1 s d p st)
  then show ?case by simp
next
  case (2 fuel s d p st)
  have v: "visited_packages sa = visited_packages st" using 2(2) by (simp add: same_graph_def)
  consider (lim) "depth_limit_reached cfg d"
    | (cyc) "\<not> depth_limit_reached cfg d" "s \<in> set p"
    | (skip) "\<not> depth_limit_reached cfg d" "s \<notin> set p" "should_skip_package cfg s"
    | (seen) "\<not> depth_limit_reached cfg d" "s \<notin> set p" "\<not> should_skip_package cfg s"
        "s \<in> visited_packages st"
    | (new) "\<not> depth_limit_reached cfg d" "s \<notin> set p" "\<not> should_skip_package cfg s"
        "s \<notin> visited_packages st"
    by blast
  then show ?case
  proof cases
    case lim
    with 2(2) show ?thesis by (simp add: bfs_build_Suc)
  next
    case cyc
    with 2(2) show ?thesis by (simp add: bfs_build_Suc same_graph_def)
  next
    case skip
    with 2(2) show ?thesis by (simp add: bfs_build_Suc same_graph_def)
  next
    case seen
    with 2(2) v show ?thesis by (simp add: bfs_build_Suc)
  next
    case new
    let ?deps = "snd (get_dependencies cfg (w (clock st)) s)"
    have deps: "snd (get_dependencies cfg (w (clock sa)) s) = ?deps" by (rule det)
    have "same_graph (expanded cfg w s d st) (expanded cfg w s d sa)"
      using 2(2) deps by (simp add: same_graph_def)
    from 2(1)[OF this] new v deps show ?thesis by (simp add: bfs_build_Suc)
  qed
next
  case (3 fuel d p st)
  then show ?case by simp
next
  case (4 fuel x ds d p st)
  from 4(1)[OF 4(3)] show ?case
  proof (cases rule: option.rel_cases)
    case None
    then show ?thesis by simp
  next
    case (Some a b)
    with 4(2)[OF Some(3)] show ?thesis by simp
  qed
qed

lemma bfs_fuel_irrelevant:
  assumes "bfs_build_dependency_graph f1 cfg w s d p st = Some a"
    and "bfs_build_dependency_graph f2 cfg w s d p st = Some b"
  shows "a = b"
proof -
  from bfs_mono(1)[OF assms(1), of f2] bfs_mono(1)[OF assms(2), of f1]
  show ?thesis by (simp add: add.commute)
qed

text \<open>The reverse traversal.\<close>

lemma rev_build_Suc:
  "bfs_build_reverse_dependency_graph (Suc fuel) cfg s d p st =
     (if depth_limit_reached cfg d then Some st
      else if s \<in> set p
      then Some ((print [CycleFound (p @ [s])] st)\<lparr>cycle_detected := True\<rparr>)
      else if should_skip_package cfg s then Some (print [SkippedPackage s] st)
      else if s \<in> visited_packages st then Some st
      else bfs_dependents fuel cfg (dict_get (reverse_dependency_graph st) s) (Suc d) (p @ [s])
             ((print [AnalysingPackage s d] (st\<lparr>visited_packages := insert s (visited_packages st)\<rparr>))
                \<lparr>dependency_graph := AList.update s (dict_get (reverse_dependency_graph st) s) (dependency_graph st)\<rparr>))"
  by (simp add: print_def Let_def)

declare bfs_build_reverse_dependency_graph.simps(2) [simp del]

lemma overwritten_refl: "overwritten a a"
  by (simp add: overwritten_def)

lemma overwritten_trans:
  assumes ab: "overwritten a b" and bc: "overwritten b c"
  shows "overwritten a c"
  unfolding overwritten_def
proof (intro conjI allI)
  show "reverse_dependency_graph c = reverse_dependency_graph a"
    using ab bc by (simp add: overwritten_def)
  show "visited_packages a \<subseteq> visited_packages c"
    using ab bc unfolding overwritten_def by blast
next
  fix k
  have r: "reverse_dependency_graph b = reverse_dependency_graph a"
    and v: "visited_packages a \<subseteq> visited_packages b" "visited_packages b \<subseteq> visited_packages c"
    using ab bc by (simp_all add: overwritten_def)
  have kb: "map_of (dependency_graph b) k =
            (if k \<in> visited_packages b - visited_packages a
             then Some (dict_get (reverse_dependency_graph a) k)
             else map_of (dependency_graph a) k)"
    using ab unfolding overwritten_def by blast
  have kc: "map_of (dependency_graph c) k =
            (if k \<in> visited_packages c - visited_packages b
             then Some (dict_get (reverse_dependency_graph a) k)
             else map_of (dependency_graph b) k)"
    using bc r unfolding overwritten_def by simp
  show "map_of (dependency_graph c) k =
            (if k \<in> visited_packages c - visited_packages a
             then Some (dict_get (reverse_dependency_graph a) k)
             else map_of (dependency_graph a) k)"
  proof (cases "k \<in> visited_packages c - visited_packages b")
    case True
    with v kc show ?thesis by auto
  next
    case False
    with v kb kc show ?thesis by auto
  qed
qed

lemma rev_overwritten:
  "bfs_build_reverse_dependency_graph fuel cfg s d p st = Some st' \<Longrightarrow> overwritten st st'"
  "bfs_dependents fuel cfg ds d p st = Some st' \<Longrightarrow> overwritten st st'"
proof (induct fuel s d p st and fuel ds d p st arbitrary: st' and st' rule: bfs_fuel_induct)
  case (1 s d p st)
  then show ?case by simp
next
  case (2 fuel s d p st)
  show ?case
  proof (cases "depth_limit_reached cfg d \<or> s \<in> set p \<or> should_skip_package cfg s \<or> s \<in> visited_packages st")
    case True
    with 2(2) have "dependency_graph st' = dependency_graph st"
      "visited_packages st' = visited_packages st"
      "reverse_dependency_graph st' = reverse_dependency_graph st"
      by (auto simp: rev_build_Suc split: if_splits)
    then show ?thesis by (simp add: overwritten_def)
  next
    case False
    let ?ds = "dict_get (reverse_dependency_graph st) s"
    let ?e = "(print [AnalysingPackage s d] (st\<lparr>visited_packages := insert s (visited_packages st)\<rparr>))
                \<lparr>dependency_graph := AList.update s ?ds (dependency_graph st)\<rparr>"
    from False 2(2) have run: "bfs_dependents fuel cfg ?ds (Suc d) (p @ [s]) ?e = Some st'"
      by (simp add: rev_build_Suc)
    have "overwritten st ?e"
      using False by (auto simp: overwritten_def update_conv')
    then show ?thesis using 2(1)[OF run] by (rule overwritten_trans)
  qed
next
  case (3 fuel d p st)
  then show ?case by (simp add: overwritten_refl)
next
  case (4 fuel x ds d p st)
  from 4(3) obtain st1 where a: "bfs_build_reverse_dependency_graph fuel cfg x d p st = Some st1"
    and b: "bfs_dependents fuel cfg ds d p st1 = Some st'"
    by (auto split: option.splits)
  from 4(1)[OF a] 4(2)[OF b] show ?case by (rule overwritten_trans)
qed

lemma reachable_root: "root \<in> reachable deps root"
  by (simp add: reachable_def)

lemma cycle_fixture_loaded:
  "load_test_repository cycle_text = Inr [(''A'', [''B'']), (''B'', [''C'']), (''C'', [''A''])]"
  by code_simp

lemma fixture_lookup:
  "load_test_repository content = Inr g \<Longrightarrow>
     get_dependencies (offline_config r) (fixture_env content) n = ([], dict_get g n)"
  by (simp add: get_dependencies_def query_source_def offline_config_def fixture_env_def
      detect_repository_type_def open_test_repository_def)

lemma map_of_dict_get:
  "k \<in> set (dict_keys g) \<Longrightarrow> map_of g k = Some (dict_get g k)"
  by (cases "map_of g k") (auto simp: dict_get_def dict_keys_def map_of_eq_None_iff)

section \<open>Facts about the level computation\<close>

lemma fuel_list_induct:
  assumes "\<And>x. P 0 x"
    and "\<And>f x. (\<And>xs a. Q f xs a) \<Longrightarrow> P (Suc f) x"
    and "\<And>f a. Q f [] a"
    and "\<And>f x xs a. P f x \<Longrightarrow> (\<And>a'. Q f xs a') \<Longrightarrow> Q f (x # xs) a"
  shows "P f x" and "Q f xs a"
proof -
  have "(\<forall>x. P f x) \<and> (\<forall>xs a. Q f xs a)"
  proof (induction f)
    case 0
    have "Q 0 xs a" for xs a
      by (induction xs arbitrary: a) (auto intro: assms)
    then show ?case using assms(1) by blast
  next
    case (Suc f)
    then have p: "P (Suc f) x" for x by (auto intro: assms(2))
    have "Q (Suc f) xs a" for xs a
      by (induction xs arbitrary: a) (auto intro: assms(3,4) p)
    with p show ?case by blast
  qed
  then show "P f x" and "Q f xs a" by blast+
qed

lemma level_mono:
  "calculate_dependency_level f g p = Some n \<Longrightarrow> calculate_dependency_level (f + k) g p = Some n"
  "max_child_level f g ds m = Some n \<Longrightarrow> max_child_level (f + k) g ds m = Some n"
proof (induct f p and f ds m arbitrary: n and n rule: fuel_list_induct)
  case (1 x)
  then show ?case by simp
next
  case (2 f x)
  then show ?case by (auto split: if_splits)
next
  case (3 f a)
  then show ?case by simp
next
  case (4 f x xs a)
  then show ?case by (auto split: if_splits option.splits)
qed

lemma level_returns:
  assumes ac: "acyclic (level_edges g)"
  shows "distinct path \<Longrightarrow> set path \<subseteq> set (dict_keys g) \<Longrightarrow>
      \<forall>x \<in> set path. (x, p) \<in> (level_edges g)\<^sup>+ \<Longrightarrow> p \<in> set (dict_keys g) \<Longrightarrow>
      card (set (dict_keys g)) < f + length path \<Longrightarrow>
      calculate_dependency_level f g p \<noteq> None"
    and "distinct path \<Longrightarrow> set path \<subseteq> set (dict_keys g) \<Longrightarrow>
      \<forall>d \<in> set ds. d \<in> set (dict_keys g) \<longrightarrow> (\<forall>x \<in> set path. (x, d) \<in> (level_edges g)\<^sup>+) \<Longrightarrow>
      card (set (dict_keys g)) < f + length path \<Longrightarrow>
      max_child_level f g ds m \<noteq> None"
proof (induct f p and f ds m arbitrary: path and path rule: fuel_list_induct)
  case (1 x)
  have "length path = card (set path)" using 1 by (simp add: distinct_card)
  also have "\<dots> \<le> card (set (dict_keys g))" using 1 by (simp add: card_mono)
  finally show ?case using 1 by simp
next
  case (2 f x)
  show ?case
  proof (cases "dict_get g x = []")
    case True
    then show ?thesis by simp
  next
    case False
    have "x \<notin> set path"
    proof
      assume "x \<in> set path"
      with 2(4) have "(x, x) \<in> (level_edges g)\<^sup>+" by blast
      with ac show False by (simp add: acyclic_def)
    qed
    then have d: "distinct (path @ [x])" using 2(2) by simp
    have s: "set (path @ [x]) \<subseteq> set (dict_keys g)" using 2(3,5) by simp
    have e: "\<forall>d \<in> set (dict_get g x). d \<in> set (dict_keys g) \<longrightarrow>
               (\<forall>y \<in> set (path @ [x]). (y, d) \<in> (level_edges g)\<^sup>+)"
    proof (intro ballI impI)
      fix d y assume d: "d \<in> set (dict_get g x)" "d \<in> set (dict_keys g)"
        and y: "y \<in> set (path @ [x])"
      from d have xd: "(x, d) \<in> level_edges g" by (simp add: level_edges_def)
      show "(y, d) \<in> (level_edges g)\<^sup>+"
      proof (cases "y = x")
        case True
        with xd show ?thesis by blast
      next
        case False
        with y 2(4) have "(y, x) \<in> (level_edges g)\<^sup>+" by simp
        with xd show ?thesis by (blast intro: trancl_into_trancl)
      qed
    qed
    have c: "card (set (dict_keys g)) < f + length (path @ [x])" using 2(6) by simp
    from 2(1)[OF d s e c] False show ?thesis by simp
  qed
next
  case (3 f a)
  then show ?case by simp
next
  case (4 f x xs a)
  show ?case
  proof (cases "x \<in> set (dict_keys g)")
    case True
    with 4(1)[OF 4(3,4) _ _ 4(6)] 4(5) obtain c where c: "calculate_dependency_level f g x = Some c"
      by auto
    have "max_child_level f g xs (max a c) \<noteq> None"
      using 4(5) by (intro 4(2)[OF 4(3,4) _ 4(6)]) simp
    with True c show ?thesis by simp
  next
    case False
    have "max_child_level f g xs a \<noteq> None"
      using 4(5) by (intro 4(2)[OF 4(3,4) _ 4(6)]) simp
    with False show ?thesis by simp
  qed
qed

lemma max_child_level_value:
  "max_child_level f g ds m = Some n \<Longrightarrow>
     n = fold max (map (\<lambda>d. the (calculate_dependency_level f g d))
                       (filter (\<lambda>d. d \<in> set (dict_keys g)) ds)) m
     \<and> (\<forall>d \<in> set ds. d \<in> set (dict_keys g) \<longrightarrow> calculate_dependency_level f g d \<noteq> None)"
  by (induction ds arbitrary: m) (auto simp: max.commute split: if_splits option.splits)

lemma level_diverges_on_cycle:
  "x \<in> {''A'', ''B'', ''C''} \<Longrightarrow>
     calculate_dependency_level fuel [(''A'', [''B'']), (''B'', [''C'']), (''C'', [''A''])] x = None"
  by (induction fuel arbitrary: x) (auto simp: dict_get_def dict_keys_def)

section \<open>Facts about the reverse index\<close>

lemma dict_get_append:
  "dict_get (dict_append k v d) b = (if b = k then dict_get d k @ [v] else dict_get d b)"
  by (simp add: dict_append_def)

lemma dict_get_Cons:
  "dict_get ((p, ds) # g) a = (if a = p then ds else dict_get g a)"
  by (simp add: dict_get_def)

lemma dict_get_absent: "a \<notin> fst ` set g \<Longrightarrow> dict_get g a = []"
  by (simp add: dict_get_def map_of_eq_None_iff[THEN iffD2])

lemma count_add_reverse_edges:
  "count_list (dict_get (add_reverse_edges a ds r) b) x
     = count_list (dict_get r b) x + (if x = a then count_list ds b else 0)"
  unfolding add_reverse_edges_def
  by (induction ds arbitrary: r) (auto simp: dict_get_append)

lemma count_inverted:
  "distinct (map fst g) \<Longrightarrow>
     count_list (dict_get (fold (\<lambda>(p, ds). add_reverse_edges p ds) g r) b) a
       = count_list (dict_get r b) a + count_list (dict_get g a) b"
proof (induction g arbitrary: r)
  case Nil
  then show ?case by (simp add: dict_get_def)
next
  case (Cons e g)
  obtain p ds where e: "e = (p, ds)" by (cases e)
  with Cons.prems have p: "p \<notin> fst ` set g" and d: "distinct (map fst g)" by auto
  show ?case
    using Cons.IH[OF d, of "add_reverse_edges p ds r"] dict_get_absent[OF p]
    by (simp add: e count_add_reverse_edges dict_get_Cons)
qed

lemma count_inverted_keys:
  "distinct ks \<Longrightarrow>
     count_list (dict_get (fold (\<lambda>k. add_reverse_edges k (dict_get P k)) ks r) b) a
       = count_list (dict_get r b) a + (if a \<in> set ks then count_list (dict_get P a) b else 0)"
  by (induction ks arbitrary: r) (auto simp: count_add_reverse_edges)

lemma dict_get_fold_update:
  "dict_get (fold (\<lambda>k. AList.update k (dict_get P k)) ks g) a
     = (if a \<in> set ks then dict_get P a else dict_get g a)"
  by (induction ks arbitrary: g) auto

lemma fold_record_package:
  "dependency_graph (fold (record_package P) ks st)
     = fold (\<lambda>k. AList.update k (dict_get P k)) ks (dependency_graph st)"
  "reverse_dependency_graph (fold (record_package P) ks st)
     = fold (\<lambda>k. add_reverse_edges k (dict_get P k)) ks (reverse_dependency_graph st)"
  by (induction ks arbitrary: st) (simp_all add: record_package_def Let_def)

lemma distinct_load_line: "distinct (map fst g) \<Longrightarrow> distinct (map fst (load_line raw g))"
  by (simp add: load_line_def Let_def distinct_update)

lemma distinct_fold_load_line:
  "distinct (map fst g) \<Longrightarrow> distinct (map fst (fold load_line ls g))"
  by (induction ls arbitrary: g) (simp_all add: distinct_load_line)

lemma distinct_load_test_repository:
  "load_test_repository content = Inr g \<Longrightarrow> distinct (map fst g)"
  by (auto simp: load_test_repository_def Let_def distinct_fold_load_line split: if_splits)

lemma distinct_fold_offline:
  "distinct (map fst ps) \<Longrightarrow>
     distinct (map fst (fst (fold (\<lambda>doc (ps, fs). case parse_nuspec_file w doc of
                                          Inl e \<Rightarrow> (ps, fs @ [e])
                                        | Inr (name, deps) \<Rightarrow> (AList.update name deps ps, fs))
                       docs (ps, fs))))"
  by (induction docs arbitrary: ps fs) (auto simp: distinct_update split: sum.splits)

lemma distinct_load_offline_repository:
  "load_offline_repository w docs = (failures, Inr packages) \<Longrightarrow> distinct (map fst packages)"
  using distinct_fold_offline[of "[]" w docs "[]"]
  by (auto simp: load_offline_repository_def Let_def split: if_splits prod.splits)

lemma build_complete_test:
  assumes "work_mode cfg = Offline"
    and "detect_repository_type (w (clock st0)) (test_repo_path cfg) = Inr TestFormat"
    and "open_test_repository (w (clock st0)) (test_repo_path cfg) = Inr g"
    and "build_complete_dependency_graph cfg w st0 = Inr st"
  shows "dependency_graph st = g"
    and "reverse_dependency_graph st
           = fold (\<lambda>(p, ds). add_reverse_edges p ds) g (reverse_dependency_graph st0)"
  using assms by (auto simp: build_complete_dependency_graph_def Let_def)

lemma build_complete_nuspec:
  assumes "work_mode cfg = Offline"
    and "detect_repository_type (w (clock st0)) (test_repo_path cfg) = Inr NuspecOffline"
    and "open_offline_repository (w (clock st0)) (test_repo_path cfg) = (failures, Inr packages)"
    and "build_complete_dependency_graph cfg w st0 = Inr st"
  shows "dependency_graph st
           = fold (\<lambda>k. AList.update k (dict_get packages k)) (dict_keys packages)
               (dependency_graph st0)"
    and "reverse_dependency_graph st
           = fold (\<lambda>k. add_reverse_edges k (dict_get packages k)) (dict_keys packages)
               (reverse_dependency_graph st0)"
  using assms by (auto simp: build_complete_dependency_graph_def Let_def fold_record_package)

lemma open_test_distinct:
  "open_test_repository e path = Inr g \<Longrightarrow> distinct (map fst g)"
  by (auto simp: open_test_repository_def distinct_load_test_repository
      split: option.splits fs_node.splits)

lemma open_offline_distinct:
  "open_offline_repository e path = (failures, Inr packages) \<Longrightarrow> distinct (map fst packages)"
  by (auto simp: open_offline_repository_def distinct_load_offline_repository
      split: option.splits fs_node.splits)

lemma build_complete_inverts:
  assumes full: "build_complete_dependency_graph cfg w (init t) = Inr sr"
  shows "count_list (dict_get (reverse_dependency_graph sr) b) a
           = count_list (dict_get (dependency_graph sr) a) b"
    and "snd (get_dependencies cfg (w t) n) = dict_get (dependency_graph sr) n"
proof -
  have off: "work_mode cfg = Offline"
    using full by (cases "work_mode cfg") (auto simp: build_complete_dependency_graph_def Let_def)
  have c: "clock (init t) = t" "dependency_graph (init t) = []"
    "reverse_dependency_graph (init t) = []" by (simp_all add: init_def)
  obtain ty where ty: "detect_repository_type (w t) (test_repo_path cfg) = Inr ty"
    using full off
    by (cases "detect_repository_type (w t) (test_repo_path cfg)")
       (auto simp: build_complete_dependency_graph_def Let_def c)
  have "count_list (dict_get (reverse_dependency_graph sr) b) a
           = count_list (dict_get (dependency_graph sr) a) b
        \<and> snd (get_dependencies cfg (w t) n) = dict_get (dependency_graph sr) n"
  proof (cases ty)
    case TestFormat
    obtain g where g: "open_test_repository (w t) (test_repo_path cfg) = Inr g"
      using full off ty TestFormat
      by (cases "open_test_repository (w t) (test_repo_path cfg)")
         (auto simp: build_complete_dependency_graph_def Let_def c)
    from build_complete_test[OF off _ _ full] ty TestFormat g c
    have s: "dependency_graph sr = g"
      "reverse_dependency_graph sr = fold (\<lambda>(p, ds). add_reverse_edges p ds) g []"
      by simp_all
    have "snd (get_dependencies cfg (w t) n) = dict_get g n"
      using off ty TestFormat g by (simp add: get_dependencies_def query_source_def)
    with s count_inverted[OF open_test_distinct[OF g], of "[]" b a] show ?thesis
      by (simp add: dict_get_def)
  next
    case NuspecOffline
    obtain failures packages where
      p: "open_offline_repository (w t) (test_repo_path cfg) = (failures, Inr packages)"
      using full off ty NuspecOffline
      by (cases "open_offline_repository (w t) (test_repo_path cfg)";
          cases "snd (open_offline_repository (w t) (test_repo_path cfg))")
         (auto simp: build_complete_dependency_graph_def Let_def c)
    from build_complete_nuspec[OF off _ _ full] ty NuspecOffline p c
    have s: "dependency_graph sr
               = fold (\<lambda>k. AList.update k (dict_get packages k)) (dict_keys packages) []"
      "reverse_dependency_graph sr
         = fold (\<lambda>k. add_reverse_edges k (dict_get packages k)) (dict_keys packages) []"
      by simp_all
    have absent: "dict_get packages x = []" if "x \<notin> set (dict_keys packages)" for x
      using that by (simp add: dict_keys_def dict_get_absent)
    have dg: "dict_get (dependency_graph sr) x = dict_get packages x" for x
      using absent[of x] by (simp add: s dict_get_fold_update) (simp add: dict_get_def)
    have d: "distinct (dict_keys packages)"
      using open_offline_distinct[OF p] by (simp add: dict_keys_def)
    have "snd (get_dependencies cfg (w t) n) = dict_get packages n"
      using off ty NuspecOffline p by (simp add: get_dependencies_def query_source_def)
    moreover have "count_list (dict_get (reverse_dependency_graph sr) b) a
           = count_list (dict_get packages a) b"
      using absent[of a] by (simp add: s count_inverted_keys[OF d]) (simp add: dict_get_def)
    ultimately show ?thesis by (simp add: dg)
  qed
  then show "count_list (dict_get (reverse_dependency_graph sr) b) a
           = count_list (dict_get (dependency_graph sr) a) b"
    and "snd (get_dependencies cfg (w t) n) = dict_get (dependency_graph sr) n" by simp_all
qed

lemma bfs_distinct_keys:
  "bfs_build_dependency_graph fuel cfg w s d p st = Some st' \<Longrightarrow>
     distinct (map fst (dependency_graph st)) \<Longrightarrow> distinct (map fst (dependency_graph st'))"
  "bfs_dependencies fuel cfg w ds d p st = Some st' \<Longrightarrow>
     distinct (map fst (dependency_graph st)) \<Longrightarrow> distinct (map fst (dependency_graph st'))"
proof (induct fuel s d p st and fuel ds d p st arbitrary: st' and st' rule: bfs_fuel_induct)
  case (1 s d p st)
  then show ?case by simp
next
  case (2 fuel s d p st)
  show ?case
  proof (cases "depth_limit_reached cfg d \<or> s \<in> set p \<or> should_skip_package cfg s \<or> s \<in> visited_packages st")
    case True
    with 2(2) have "dependency_graph st' = dependency_graph st"
      by (auto simp: bfs_build_Suc split: if_splits)
    with 2(3) show ?thesis by simp
  next
    case False
    with 2(2) have "bfs_dependencies fuel cfg w (snd (get_dependencies cfg (w (clock st)) s))
        (Suc d) (p @ [s]) (expanded cfg w s d st) = Some st'"
      by (simp add: bfs_build_Suc)
    from 2(1)[OF this] 2(3) show ?thesis by (simp add: distinct_update)
  qed
next
  case (3 fuel d p st)
  then show ?case by simp
next
  case (4 fuel x ds d p st)
  from 4(3) obtain st1 where a: "bfs_build_dependency_graph fuel cfg w x d p st = Some st1"
    and b: "bfs_dependencies fuel cfg w ds d p st1 = Some st'"
    by (auto split: option.splits)
  from 4(2)[OF b 4(1)[OF a 4(4)]] show ?case .
qed

section \<open>Facts about the sources\<close>

lemma split_ws_aux_tokens:
  "\<forall>c \<in> set cur. \<not> is_space c \<Longrightarrow> t \<in> set (split_ws_aux cur s) \<Longrightarrow>
     t \<noteq> [] \<and> (\<forall>c \<in> set t. \<not> is_space c)"
proof (induction s arbitrary: cur)
  case Nil
  then show ?case by (auto split: if_splits)
next
  case (Cons a s)
  show ?case
  proof (cases "is_space a")
    case True
    have e: "\<forall>c \<in> set ([] :: string). \<not> is_space c" by simp
    from Cons.prems(2) True have "t = rev cur \<and> cur \<noteq> [] \<or> t \<in> set (split_ws_aux [] s)"
      by (auto split: if_splits)
    then show ?thesis
    proof
      assume "t = rev cur \<and> cur \<noteq> []"
      with Cons.prems(1) show ?thesis by simp
    next
      assume "t \<in> set (split_ws_aux [] s)"
      from Cons.IH[OF e this] show ?thesis .
    qed
  next
    case False
    with Cons.prems have "\<forall>c \<in> set (a # cur). \<not> is_space c"
      and "t \<in> set (split_ws_aux (a # cur) s)" by simp_all
    then show ?thesis by (rule Cons.IH)
  qed
qed

lemma strip_clean: "\<forall>c \<in> set t. \<not> is_space c \<Longrightarrow> strip t = t"
proof -
  assume a: "\<forall>c \<in> set t. \<not> is_space c"
  have d: "dropWhile is_space u = u" if "\<forall>c \<in> set u. \<not> is_space c" for u
    using that by (cases u) auto
  show ?thesis using a by (simp add: strip_def d)
qed

lemma split_ws_clean:
  "map strip (filter (\<lambda>dep. strip dep \<noteq> []) (split_ws s)) = split_ws s"
proof -
  have t: "t \<noteq> [] \<and> strip t = t" if "t \<in> set (split_ws s)" for t
    using split_ws_aux_tokens[of "[]" t s] that by (simp add: split_ws_def strip_clean)
  then have "filter (\<lambda>dep. strip dep \<noteq> []) (split_ws s) = split_ws s"
    by (intro filter_True) auto
  moreover have "map strip (split_ws s) = split_ws s"
    using t by (intro map_idI) auto
  ultimately show ?thesis by simp
qed

lemma load_line_arrow:
  "str_in ''->'' (strip raw) \<Longrightarrow> split_on ''->'' (strip raw) = [l, r] \<Longrightarrow>
     load_line raw g = AList.update (strip l) (split_ws r) g"
  by (simp add: load_line_def Let_def split_ws_clean)

lemma bfs_from_source:
  "bfs_build_dependency_graph fuel cfg w s d p st = Some st' \<Longrightarrow>
     from_source cfg w (dependency_graph st) \<Longrightarrow> from_source cfg w (dependency_graph st')"
  "bfs_dependencies fuel cfg w ds d p st = Some st' \<Longrightarrow>
     from_source cfg w (dependency_graph st) \<Longrightarrow> from_source cfg w (dependency_graph st')"
proof (induct fuel s d p st and fuel ds d p st arbitrary: st' and st' rule: bfs_fuel_induct)
  case (1 s d p st)
  then show ?case by simp
next
  case (2 fuel s d p st)
  show ?case
  proof (cases "depth_limit_reached cfg d \<or> s \<in> set p \<or> should_skip_package cfg s \<or> s \<in> visited_packages st")
    case True
    with 2(2) have "dependency_graph st' = dependency_graph st"
      by (auto simp: bfs_build_Suc split: if_splits)
    with 2(3) show ?thesis by simp
  next
    case False
    with 2(2) have run: "bfs_dependencies fuel cfg w (snd (get_dependencies cfg (w (clock st)) s))
        (Suc d) (p @ [s]) (expanded cfg w s d st) = Some st'"
      by (simp add: bfs_build_Suc)
    have "from_source cfg w (dependency_graph (expanded cfg w s d st))"
      using 2(3) by (auto simp: from_source_def update_conv')
    from 2(1)[OF run this] show ?thesis .
  qed
next
  case (3 fuel d p st)
  then show ?case by simp
next
  case (4 fuel x ds d p st)
  from 4(3) obtain st1 where a: "bfs_build_dependency_graph fuel cfg w x d p st = Some st1"
    and b: "bfs_dependencies fuel cfg w ds d p st1 = Some st'"
    by (auto split: option.splits)
  from 4(2)[OF b 4(1)[OF a 4(4)]] show ?case .
qed

lemma from_source_init: "from_source cfg w (dependency_graph (init t))"
  by (simp add: from_source_def init_def)

text \<open>
  What each source answers for a name: the plain-text fixture, the registry, and the
  directory of \<open>.nuspec\<close> files, in which the last file read for a name decides.
\<close>

lemma list_of_set_distinct: "distinct (list_of_set e xs)"
  by (simp add: list_of_set_def Let_def)

lemma list_of_set_set: "set (list_of_set e xs) = set xs"
  by (simp add: list_of_set_def Let_def)

lemma parse_nuspec_file_declared:
  "parse_nuspec_file e (Document x) = Inr (name, deps) \<Longrightarrow>
     deps = list_of_set e (declared_dependencies x)"
  by (auto simp: parse_nuspec_file_def declared_dependencies_def Let_def split: option.splits)

lemma dict_get_update_same: "dict_get (AList.update k v g) k = v"
  by (simp add: dict_get_def update_conv')

lemma dict_get_update_other: "k' \<noteq> k \<Longrightarrow> dict_get (AList.update k' v g) k = dict_get g k"
  by (simp add: dict_get_def update_conv')

lemma load_line_other:
  assumes "\<forall>l r. split_on ''->'' (strip raw) = [l, r] \<longrightarrow> strip l \<noteq> k"
  shows "dict_get (load_line raw g) k = dict_get g k"
proof -
  have two: "xs = [xs ! 0, xs ! 1]" if "length xs = 2" for xs :: "string list"
    using that by (cases xs; cases "tl xs") auto
  show ?thesis
  proof (cases "str_in ''->'' (strip raw) \<and> length (split_on ''->'' (strip raw)) = 2")
    case True
    then have "split_on ''->'' (strip raw)
                 = [split_on ''->'' (strip raw) ! 0, split_on ''->'' (strip raw) ! 1]"
      using two by blast
    with assms have "strip (split_on ''->'' (strip raw) ! 0) \<noteq> k" by blast
    with True show ?thesis by (simp add: load_line_def Let_def dict_get_update_other)
  next
    case False
    then show ?thesis by (auto simp: load_line_def Let_def)
  qed
qed

lemma fold_load_line_other:
  "\<forall>raw \<in> set post. \<forall>l r. split_on ''->'' (strip raw) = [l, r] \<longrightarrow> strip l \<noteq> k \<Longrightarrow>
     dict_get (fold load_line post g) k = dict_get g k"
  by (induction post arbitrary: g) (simp_all add: load_line_other)

lemma fixture_file_lookup:
  assumes "work_mode cfg = Offline" and "test_repo_path cfg = Some path"
    and "filesystem e path = RegularFile content"
  shows "snd (get_dependencies cfg e k)
           = dict_get (fold load_line (split_on [CHR 0x0A] (strip content)) []) k"
  using assms
  by (simp add: get_dependencies_def query_source_def detect_repository_type_def
      open_test_repository_def load_test_repository_def Let_def dict_get_def)

lemma registry_lookup:
  assumes "work_mode cfg = Online" and "repository_url cfg = Some url"
    and "registry e url k = Inr (Document x)"
  shows "snd (get_dependencies cfg e k) = list_of_set e (declared_dependencies x)"
  using assms
  by (simp add: get_dependencies_def query_source_def get_package_dependencies_online_def
      parse_nuspec_dependencies_def)

lemma offline_fold_other:
  "\<forall>d \<in> set post. nuspec_id e d \<noteq> Some k \<Longrightarrow>
     dict_get (fst (fold (\<lambda>doc (ps, fs). case parse_nuspec_file e doc of
                                          Inl err \<Rightarrow> (ps, fs @ [err])
                                        | Inr (name, deps) \<Rightarrow> (AList.update name deps ps, fs))
                      post acc)) k
       = dict_get (fst acc) k"
proof (induction post arbitrary: acc)
  case Nil
  then show ?case by simp
next
  case (Cons d post)
  obtain ps fs where acc: "acc = (ps, fs)" by (cases acc)
  from Cons.prems have d: "nuspec_id e d \<noteq> Some k" and r: "\<forall>d \<in> set post. nuspec_id e d \<noteq> Some k"
    by simp_all
  show ?case
  proof (cases "parse_nuspec_file e d")
    case (Inl err)
    then show ?thesis using Cons.IH[OF r, of "(ps, fs @ [err])"] by (simp add: acc)
  next
    case (Inr nd)
    obtain name deps where nd: "nd = (name, deps)" by (cases nd)
    with Inr d have "name \<noteq> k" by (simp add: nuspec_id_def)
    then show ?thesis
      using Cons.IH[OF r, of "(AList.update name deps ps, fs)"] Inr nd
      by (simp add: acc dict_get_update_other)
  qed
qed

lemma directory_lookup:
  assumes "work_mode cfg = Offline" and "test_repo_path cfg = Some path"
    and "filesystem e path = Directory (pre @ [Document x] @ post)"
    and "nuspec_id e (Document x) = Some k"
    and "\<forall>d \<in> set post. nuspec_id e d \<noteq> Some k"
  shows "snd (get_dependencies cfg e k) = list_of_set e (declared_dependencies x)"
proof -
  let ?step = "\<lambda>doc (ps, fs). case parse_nuspec_file e doc of
                  Inl err \<Rightarrow> (ps, fs @ [err])
                | Inr (name, deps) \<Rightarrow> (AList.update name deps ps, fs)"
  let ?docs = "pre @ [Document x] @ post"
  obtain ps0 fs0 where a0: "fold ?step pre ([], []) = (ps0, fs0)" by (cases "fold ?step pre ([], [])")
  from assms(4) obtain deps where p: "parse_nuspec_file e (Document x) = Inr (k, deps)"
    by (auto simp: nuspec_id_def split: sum.splits)
  then have deps: "deps = list_of_set e (declared_dependencies x)"
    by (rule parse_nuspec_file_declared)
  have f: "fold ?step ?docs ([], []) = fold ?step post (AList.update k deps ps0, fs0)"
    by (simp add: a0 p)
  obtain ps fs where r: "fold ?step ?docs ([], []) = (ps, fs)" by (cases "fold ?step ?docs ([], [])")
  have "dict_get (fst (fold ?step post (AList.update k deps ps0, fs0))) k
          = dict_get (fst (AList.update k deps ps0, fs0)) k"
    by (rule offline_fold_other[OF assms(5)])
  with f r have g: "dict_get ps k = deps" by (simp add: dict_get_update_same)
  have lo: "load_offline_repository e ?docs
          = (if ps = [] then (fs, Inl (OfflineLoadFailed NoPackagesLoaded)) else (fs, Inr ps))"
    using r by (simp add: load_offline_repository_def)
  have "snd (get_dependencies cfg e k) = dict_get ps k"
    using assms(1-3) lo
    by (simp add: get_dependencies_def query_source_def detect_repository_type_def
        open_offline_repository_def dict_get_def)
  with g deps show ?thesis by simp
qed


text \<open>
  The order of a list read from a \<open>.nuspec\<close> is the order of the interpreter's set: the same
  document gives \<open>[X, Y]\<close> in one world and \<open>[Y, X]\<close> in another.
\<close>

lemma nuspec_order_is_the_interpreters:
  "snd (get_dependencies (online_config ''P'')
          ((registry_env sample_nuspec)\<lparr>set_order := rev \<circ> remdups\<rparr>) ''P'') = [''X'', ''Y'']
   \<and> snd (get_dependencies (online_config ''P'') (registry_env sample_nuspec) ''P'') = [''Y'', ''X'']"
  by code_simp

lemma sample_nuspec_ids:
  "declared_dependencies sample_nuspec = [''X'', ''Y'', ''X'']"
  by code_simp

section \<open>Returning, and exceeding the recursion bound\<close>

text \<open>
  Over a source that answers from a finite dictionary at all times, the forward build returns
  as soon as the recursion bound exceeds the number of entries.
\<close>

lemma forward_build_returns:
  assumes "\<And>t n. snd (get_dependencies cfg (w t) n) = dict_get g n"
    and "length g < fuel"
  shows "bfs_build_dependency_graph fuel cfg w root 0 [] st \<noteq> None"
proof -
  have supp: "snd (get_dependencies cfg (w t) n) = []" if "n \<notin> set (dict_keys g)" for t n
    using that assms(1) by (simp add: dict_keys_def dict_get_absent)
  have "card (set (dict_keys g)) \<le> length g"
    using card_length[of "dict_keys g"] by (simp add: dict_keys_def)
  with assms(2) have "card (set (dict_keys g)) < fuel + length ([] :: string list)" by simp
  with bfs_returns(1)[of "dict_keys g" cfg w "[]" fuel root 0 st, OF supp] show ?thesis by simp
qed

text \<open>
  The map built from the cyclic fixture keeps its cycle. The level analysis of a forward run
  on it exceeds every recursion bound, so the run ends with status 1.
\<close>

lemma run_exits_on_cycle_fixture:
  assumes "bfs_build_dependency_graph fuel (offline_config ''A'') (\<lambda>t. fixture_env cycle_text)
             ''A'' 0 [] (init 0) = Some st"
  shows "run fuel (offline_config ''A'') (\<lambda>t. fixture_env cycle_text) 0
           = Some (Exit1 RecursionError st)"
proof -
  let ?st = "\<lparr>dependency_graph = [(''A'', [''B'']), (''B'', [''C'']), (''C'', [''A''])],
     reverse_dependency_graph = [], visited_packages = {''C'', ''B'', ''A''},
     cycle_detected = True,
     stdout = [AnalysingPackage ''A'' 0, AnalysingPackage ''B'' 1, AnalysingPackage ''C'' 2,
               CycleFound [''A'', ''B'', ''C'', ''A'']],
     clock = 3\<rparr>"
  have "bfs_build_dependency_graph 5 (offline_config ''A'') (\<lambda>t. fixture_env cycle_text)
          ''A'' 0 [] (init 0) = Some ?st"
    by code_simp
  from bfs_fuel_irrelevant[OF assms this]
  have g: "dependency_graph st = [(''A'', [''B'']), (''B'', [''C'']), (''C'', [''A''])]" by simp
  have "dependency_levels fuel (dependency_graph st) = None"
    by (simp add: g dependency_levels_def dict_keys_def level_diverges_on_cycle)
  with assms show ?thesis by (simp add: run_def offline_config_def)
qed

section \<open>The name filter\<close>

text \<open>
  Claim C1. With a filter set, a node whose name does not contain the filter should be
  skipped and a node whose name contains it kept and expanded. The code does the opposite:
  \<open>should_skip_package\<close> answers true exactly for the names that contain the filter. On the
  fixture \<open>A -> B\<close> with filter \<open>a\<close> the root \<open>A\<close> contains the filter and is skipped, so
  the forward map stays empty and the reverse traversal visits nothing; with filter \<open>x\<close>,
  which neither name contains, both nodes are expanded.
\<close>

theorem filter_skips_matching_names:
  "should_skip_package ((offline_config ''A'')\<lparr>filter_substring := Some ''a''\<rparr>) ''A''
   \<and> \<not> should_skip_package ((offline_config ''A'')\<lparr>filter_substring := Some ''x''\<rparr>) ''A''
   \<and> map_option (\<lambda>st. (dependency_graph st, stdout st))
        (bfs_build_dependency_graph 5 ((offline_config ''A'')\<lparr>filter_substring := Some ''a''\<rparr>)
           (\<lambda>t. fixture_env edge_text) ''A'' 0 [] (init 0))
       = Some ([], [SkippedPackage ''A''])
   \<and> map_option (\<lambda>st. (visited_packages st, stdout st))
        (bfs_build_reverse_dependency_graph 5
           ((offline_config ''A'')\<lparr>filter_substring := Some ''a''\<rparr>) ''A'' 0 [] (init 0))
       = Some ({}, [SkippedPackage ''A''])
   \<and> map_option dependency_graph
        (bfs_build_dependency_graph 5 ((offline_config ''A'')\<lparr>filter_substring := Some ''x''\<rparr>)
           (\<lambda>t. fixture_env edge_text) ''A'' 0 [] (init 0))
       = Some [(''A'', [''B'']), (''B'', [])]"
  by code_simp

section \<open>Cycles\<close>

text \<open>
  Claim C2, as stated, at the fixture \<open>A -> B\<close>, \<open>B -> C\<close>, \<open>C -> A\<close>: the forward build from
  \<open>A\<close> does detect the cycle, but the map it produces has an entry for \<open>C\<close>, and that entry
  holds the closing edge to \<open>A\<close>.
\<close>

theorem cycle_fixture_keeps_closing_edge:
  "map_option (\<lambda>st. (dependency_graph st, cycle_detected st))
     (bfs_build_dependency_graph 5 (offline_config ''A'') (\<lambda>t. fixture_env cycle_text)
        ''A'' 0 [] (init 0))
   = Some ([(''A'', [''B'']), (''B'', [''C'']), (''C'', [''A''])], True)
   \<and> map_option dependency_graph
       (bfs_build_dependency_graph 5 (offline_config ''A'') (\<lambda>t. fixture_env cycle_text)
          ''A'' 0 [] (init 0))
     \<noteq> Some [(''A'', [''B'']), (''B'', [''C''])]"
  by code_simp

text \<open>
  Claim C2, amended. On the fixture \<open>A -> B\<close>, \<open>B -> C\<close>, \<open>C -> A\<close> the forward build from \<open>A\<close>
  produces \<open>{A: [B], B: [C], C: [A]}\<close> and sets \<open>cycle_detected\<close>. More generally, for a source
  that answers \<open>deps\<close> at all times, without depth limit and filter: an edge from a node that
  the root reaches, lying on a cycle (its target leads back to its source), is present in
  the map that a returning forward build produces. The node that closes a cycle is not
  expanded a second time, but the list recorded for its predecessor keeps the edge.
\<close>

theorem cycle_edges_are_recorded:
  assumes nolim: "max_depth cfg = None" and nofilter: "filter_substring cfg = None"
    and const: "\<And>t n. snd (get_dependencies cfg (w t) n) = deps n"
    and run: "bfs_build_dependency_graph fuel cfg w root 0 [] (init t) = Some st"
    and reach: "a \<in> reachable deps root" and edge: "b \<in> set (deps a)"
    and cyc: "(b, a) \<in> (source_edges deps)\<^sup>*"
  shows "map_option (\<lambda>st. (dependency_graph st, cycle_detected st))
           (bfs_build_dependency_graph 5 (offline_config ''A'') (\<lambda>t. fixture_env cycle_text)
              ''A'' 0 [] (init 0))
         = Some ([(''A'', [''B'']), (''B'', [''C'']), (''C'', [''A''])], True)
       \<and> b \<in> set (dict_get (dependency_graph st) a)"
proof
  show "map_option (\<lambda>st. (dependency_graph st, cycle_detected st))
           (bfs_build_dependency_graph 5 (offline_config ''A'') (\<lambda>t. fixture_env cycle_text)
              ''A'' 0 [] (init 0))
         = Some ([(''A'', [''B'']), (''B'', [''C'']), (''C'', [''A''])], True)"
    by code_simp
  from forward_build_complete(2)[OF nolim nofilter const run] reach
  have "map_of (dependency_graph st) a = Some (deps a)" by simp
  with edge show "b \<in> set (dict_get (dependency_graph st) a)"
    by (simp add: dict_get_def)
qed

theorem cycle_edges_are_recorded_witness:
  "''A'' \<in> set (dict_get [(''A'', [''B'']), (''B'', [''C'']), (''C'', [''A''])] ''C'')"
proof -
  let ?g = "[(''A'', [''B'']), (''B'', [''C'']), (''C'', [''A''])]"
  let ?st = "\<lparr>dependency_graph = ?g,
     reverse_dependency_graph = [], visited_packages = {''C'', ''B'', ''A''},
     cycle_detected = True,
     stdout = [AnalysingPackage ''A'' 0, AnalysingPackage ''B'' 1, AnalysingPackage ''C'' 2,
               CycleFound [''A'', ''B'', ''C'', ''A'']],
     clock = 3\<rparr>"
  have h1: "max_depth (offline_config ''A'') = None" by (simp add: offline_config_def)
  have h2: "filter_substring (offline_config ''A'') = None" by (simp add: offline_config_def)
  have h3: "snd (get_dependencies (offline_config ''A'') ((\<lambda>t. fixture_env cycle_text) t) n)
              = dict_get ?g n" for t :: nat and n
    by (simp add: fixture_lookup[OF cycle_fixture_loaded])
  have h4: "bfs_build_dependency_graph 5 (offline_config ''A'') (\<lambda>t. fixture_env cycle_text)
               ''A'' 0 [] (init 0) = Some ?st"
    by code_simp
  have b: "''B'' \<in> reachable (dict_get ?g) ''A''"
    by (rule reachable_step[OF reachable_root]) (simp add: dict_get_def)
  have h5: "''C'' \<in> reachable (dict_get ?g) ''A''"
    by (rule reachable_step[OF b]) (simp add: dict_get_def)
  have h6: "''A'' \<in> set (dict_get ?g ''C'')" by (simp add: dict_get_def)
  have h7: "(''A'', ''C'') \<in> (source_edges (dict_get ?g))\<^sup>*"
    using h5 by (simp add: reachable_def)
  from cycle_edges_are_recorded[where w = "\<lambda>t. fixture_env cycle_text", OF h1 h2 h3 h4 h5 h6 h7]
  show ?thesis by simp
qed

section \<open>The recorded dependency lists\<close>

text \<open>
  Claim C3, as stated, fails on the plain-text source: for the fixture line \<open>A -> B B\<close> the
  forward build records \<open>[B, B]\<close> for \<open>A\<close>, not the list without duplicates.
\<close>

theorem fixture_duplicates_are_kept:
  "map_option (\<lambda>st. dict_get (dependency_graph st) ''A'')
     (bfs_build_dependency_graph 5 (offline_config ''A'') (\<lambda>t. fixture_env dup_text)
        ''A'' 0 [] (init 0))
   = Some [''B'', ''B'']
   \<and> map_option (\<lambda>st. dict_get (dependency_graph st) ''A'')
       (bfs_build_dependency_graph 5 (offline_config ''A'') (\<lambda>t. fixture_env dup_text)
          ''A'' 0 [] (init 0))
     \<noteq> Some (remdups [''B'', ''B''])"
  by code_simp

text \<open>
  Claim C3, amended. Every list in the map of a forward build is, unchanged, a list that
  \<open>get_dependencies\<close> answered for its key. Over a plain-text fixture whose last line for the
  key is \<open>l -> r\<close>, the list is the whitespace-separated names of \<open>r\<close>, in their order and with
  their duplicates. Over the registry, and over a directory of \<open>.nuspec\<close> files whose last file
  for the key is \<open>y\<close>, it is \<open>list(set(dependencies))\<close> of the ids that the document declares:
  the list has no duplicates and holds exactly the declared ids, in the order in which the
  interpreter enumerates the set, whatever the order of the document.
\<close>

theorem stored_list_is_source_answer:
  assumes run: "bfs_build_dependency_graph fuel cfg w root 0 [] (init t) = Some st"
    and key: "map_of (dependency_graph st) k = Some ds"
  shows "(\<exists>t'. ds = snd (get_dependencies cfg (w t') k))
    \<and> (work_mode cfg = Offline \<and> test_repo_path cfg = Some path
        \<and> (\<forall>t'. filesystem (w t') path = RegularFile content)
        \<and> split_on [CHR 0x0A] (strip content) = pre @ [raw] @ post
        \<and> str_in ''->'' (strip raw) \<and> split_on ''->'' (strip raw) = [l, r] \<and> strip l = k
        \<and> (\<forall>raw' \<in> set post. \<forall>l' r'. split_on ''->'' (strip raw') = [l', r'] \<longrightarrow> strip l' \<noteq> k)
       \<longrightarrow> ds = split_ws r)
    \<and> (work_mode cfg = Online \<and> repository_url cfg = Some url
        \<and> (\<forall>t'. registry (w t') url k = Inr (Document x))
       \<longrightarrow> distinct ds \<and> set ds = set (declared_dependencies x))
    \<and> (work_mode cfg = Offline \<and> test_repo_path cfg = Some dir
        \<and> (\<forall>t'. filesystem (w t') dir = Directory (docs1 @ [Document y] @ docs2))
        \<and> (\<forall>t'. nuspec_id (w t') (Document y) = Some k)
        \<and> (\<forall>t'. \<forall>d \<in> set docs2. nuspec_id (w t') d \<noteq> Some k)
       \<longrightarrow> distinct ds \<and> set ds = set (declared_dependencies y))"
proof -
  have "from_source cfg w (dependency_graph st)"
    by (rule bfs_from_source(1)[OF run from_source_init])
  with key obtain t' where ds: "ds = snd (get_dependencies cfg (w t') k)"
    by (auto simp: from_source_def)
  have c1: "\<exists>t'. ds = snd (get_dependencies cfg (w t') k)" using ds by blast
  have c2: "ds = split_ws r"
    if h: "work_mode cfg = Offline \<and> test_repo_path cfg = Some path
        \<and> (\<forall>t'. filesystem (w t') path = RegularFile content)
        \<and> split_on [CHR 0x0A] (strip content) = pre @ [raw] @ post
        \<and> str_in ''->'' (strip raw) \<and> split_on ''->'' (strip raw) = [l, r] \<and> strip l = k
        \<and> (\<forall>raw' \<in> set post. \<forall>l' r'. split_on ''->'' (strip raw') = [l', r'] \<longrightarrow> strip l' \<noteq> k)"
  proof -
    from h have m: "work_mode cfg = Offline" and p: "test_repo_path cfg = Some path"
      and f: "filesystem (w t') path = RegularFile content"
      and lines: "split_on [CHR 0x0A] (strip content) = pre @ [raw] @ post"
      and arrow: "str_in ''->'' (strip raw)" and parts: "split_on ''->'' (strip raw) = [l, r]"
      and name: "strip l = k"
      and rest: "\<forall>raw' \<in> set post. \<forall>l' r'. split_on ''->'' (strip raw') = [l', r'] \<longrightarrow> strip l' \<noteq> k"
      by blast+
    have "ds = dict_get (fold load_line (pre @ [raw] @ post) []) k"
      using fixture_file_lookup[OF m p f, of k] ds lines by simp
    also have "\<dots> = dict_get (load_line raw (fold load_line pre [])) k"
      using fold_load_line_other[OF rest] by simp
    also have "\<dots> = split_ws r"
      by (simp add: load_line_arrow[OF arrow parts] name dict_get_update_same)
    finally show ?thesis .
  qed
  have c3: "distinct ds \<and> set ds = set (declared_dependencies x)"
    if h: "work_mode cfg = Online \<and> repository_url cfg = Some url
        \<and> (\<forall>t'. registry (w t') url k = Inr (Document x))"
  proof -
    from h have "work_mode cfg = Online" and "repository_url cfg = Some url"
      and "registry (w t') url k = Inr (Document x)" by blast+
    then have "ds = list_of_set (w t') (declared_dependencies x)"
      using ds by (simp add: registry_lookup)
    then show ?thesis by (simp add: list_of_set_distinct list_of_set_set)
  qed
  have c4: "distinct ds \<and> set ds = set (declared_dependencies y)"
    if h: "work_mode cfg = Offline \<and> test_repo_path cfg = Some dir
        \<and> (\<forall>t'. filesystem (w t') dir = Directory (docs1 @ [Document y] @ docs2))
        \<and> (\<forall>t'. nuspec_id (w t') (Document y) = Some k)
        \<and> (\<forall>t'. \<forall>d \<in> set docs2. nuspec_id (w t') d \<noteq> Some k)"
  proof -
    from h have "work_mode cfg = Offline" and "test_repo_path cfg = Some dir"
      and "filesystem (w t') dir = Directory (docs1 @ [Document y] @ docs2)"
      and "nuspec_id (w t') (Document y) = Some k"
      and "\<forall>d \<in> set docs2. nuspec_id (w t') d \<noteq> Some k" by blast+
    then have "snd (get_dependencies cfg (w t') k) = list_of_set (w t') (declared_dependencies y)"
      by (rule directory_lookup)
    with ds show ?thesis by (simp add: list_of_set_distinct list_of_set_set)
  qed
  from c1 c2 c3 c4 show ?thesis by blast
qed

theorem stored_list_is_source_answer_witness:
  "(\<exists>t'::nat. [''B'', ''B''] = snd (get_dependencies (offline_config ''A'') (fixture_env dup_text) ''A''))
   \<and> [''B'', ''B''] = split_ws '' B B''
   \<and> (distinct [''Y'', ''X''] \<and> set [''Y'', ''X''] = set (declared_dependencies sample_nuspec))
   \<and> (distinct [''Z'', ''W''] \<and> set [''Z'', ''W''] = set (declared_dependencies plain_nuspec))"
proof -
  let ?cfg = "offline_config ''A''"
  let ?w = "\<lambda>t::nat. fixture_env dup_text"
  let ?st = "\<lparr>dependency_graph = [(''A'', [''B'', ''B'']), (''B'', [])],
     reverse_dependency_graph = [], visited_packages = {''B'', ''A''},
     cycle_detected = False,
     stdout = [AnalysingPackage ''A'' 0, AnalysingPackage ''B'' 1], clock = 2\<rparr>"
  have r1: "bfs_build_dependency_graph 5 ?cfg ?w ''A'' 0 [] (init 0) = Some ?st"
    by code_simp
  have k1: "map_of (dependency_graph ?st) ''A'' = Some [''B'', ''B'']" by simp
  have s1: "split_on [CHR 0x0A] (strip dup_text) = [] @ [dup_text] @ []"
    by code_simp
  have s2: "str_in ''->'' (strip dup_text)" by code_simp
  have s3: "split_on ''->'' (strip dup_text) = [''A '', '' B B'']" by code_simp
  have s4: "strip ''A '' = ''A''" by code_simp
  have h1: "work_mode ?cfg = Offline \<and> test_repo_path ?cfg = Some ''repo.txt''
        \<and> (\<forall>t'. filesystem (?w t') ''repo.txt'' = RegularFile dup_text)
        \<and> split_on [CHR 0x0A] (strip dup_text) = [] @ [dup_text] @ []
        \<and> str_in ''->'' (strip dup_text) \<and> split_on ''->'' (strip dup_text) = [''A '', '' B B'']
        \<and> strip ''A '' = ''A''
        \<and> (\<forall>raw' \<in> set []. \<forall>l' r'. split_on ''->'' (strip raw') = [l', r'] \<longrightarrow> strip l' \<noteq> ''A'')"
    using s1 s2 s3 s4 by (simp add: offline_config_def fixture_env_def)
  let ?cfg2 = "online_config ''P''"
  let ?w2 = "\<lambda>t::nat. registry_env sample_nuspec"
  let ?st2 = "\<lparr>dependency_graph =
       [(''P'', [''Y'', ''X'']), (''Y'', [''Y'', ''X'']), (''X'', [''Y'', ''X''])],
     reverse_dependency_graph = [], visited_packages = {''X'', ''Y'', ''P''},
     cycle_detected = True,
     stdout = [AnalysingPackage ''P'' 0, AnalysingPackage ''Y'' 1,
               CycleFound [''P'', ''Y'', ''Y''], AnalysingPackage ''X'' 2,
               CycleFound [''P'', ''Y'', ''X'', ''Y''], CycleFound [''P'', ''Y'', ''X'', ''X'']],
     clock = 3\<rparr>"
  have r2: "bfs_build_dependency_graph 5 ?cfg2 ?w2 ''P'' 0 [] (init 0) = Some ?st2"
    by code_simp
  have k2: "map_of (dependency_graph ?st2) ''P'' = Some [''Y'', ''X'']" by simp
  have h2: "work_mode ?cfg2 = Online
        \<and> repository_url ?cfg2 = Some ''https://api.nuget.org/v3/index.json''
        \<and> (\<forall>t'. registry (?w2 t') ''https://api.nuget.org/v3/index.json'' ''P''
                   = Inr (Document sample_nuspec))"
    by (simp add: online_config_def registry_env_def)
  let ?docs = "[Document plain_nuspec, Malformed, Document sample_nuspec]"
  let ?cfg3 = "directory_config ''Q''"
  let ?w3 = "\<lambda>t::nat. directory_env ?docs"
  let ?st3 = "\<lparr>dependency_graph = [(''Q'', [''Z'', ''W'']), (''Z'', []), (''W'', [])],
     reverse_dependency_graph = [], visited_packages = {''W'', ''Z'', ''Q''},
     cycle_detected = False,
     stdout = [AnalysingPackage ''Q'' 0, NuspecLoadError (NuspecFileFailed XmlParseError),
               OfflineRepositoryLoaded 2,
               AnalysingPackage ''Z'' 1, NuspecLoadError (NuspecFileFailed XmlParseError),
               OfflineRepositoryLoaded 2,
               AnalysingPackage ''W'' 1, NuspecLoadError (NuspecFileFailed XmlParseError),
               OfflineRepositoryLoaded 2],
     clock = 3\<rparr>"
  have r3: "bfs_build_dependency_graph 5 ?cfg3 ?w3 ''Q'' 0 [] (init 0) = Some ?st3"
    by code_simp
  have k3: "map_of (dependency_graph ?st3) ''Q'' = Some [''Z'', ''W'']" by simp
  have n1: "nuspec_id (directory_env ?docs) (Document plain_nuspec) = Some ''Q''" by code_simp
  have n2: "nuspec_id (directory_env ?docs) Malformed \<noteq> Some ''Q''" by code_simp
  have n3: "nuspec_id (directory_env ?docs) (Document sample_nuspec) \<noteq> Some ''Q''" by code_simp
  have h3: "work_mode ?cfg3 = Offline \<and> test_repo_path ?cfg3 = Some ''packages''
        \<and> (\<forall>t'. filesystem (?w3 t') ''packages''
                   = Directory ([] @ [Document plain_nuspec] @ [Malformed, Document sample_nuspec]))
        \<and> (\<forall>t'. nuspec_id (?w3 t') (Document plain_nuspec) = Some ''Q'')
        \<and> (\<forall>t'. \<forall>d \<in> set [Malformed, Document sample_nuspec]. nuspec_id (?w3 t') d \<noteq> Some ''Q'')"
    using n1 n2 n3 by (simp add: directory_config_def directory_env_def)
  note a = stored_list_is_source_answer[OF r1 k1]
  note b = stored_list_is_source_answer[OF r2 k2]
  note c = stored_list_is_source_answer[OF r3 k3]
  from a have c1: "\<exists>t'::nat. [''B'', ''B'']
      = snd (get_dependencies (offline_config ''A'') (fixture_env dup_text) ''A'')"
    by (rule conjunct1)
  from a[THEN conjunct2, THEN conjunct1, rule_format, OF h1]
  have c2: "[''B'', ''B''] = split_ws '' B B''" .
  from b[THEN conjunct2, THEN conjunct2, THEN conjunct1, rule_format, OF h2]
  have c3: "distinct [''Y'', ''X''] \<and> set [''Y'', ''X''] = set (declared_dependencies sample_nuspec)" .
  from c[THEN conjunct2, THEN conjunct2, THEN conjunct2, rule_format, OF h3]
  have c4: "distinct [''Z'', ''W''] \<and> set [''Z'', ''W''] = set (declared_dependencies plain_nuspec)" .
  from c1 c2 c3 c4 show ?thesis by blast
qed

section \<open>The depth limit\<close>

text \<open>
  Claim C4, as stated, fails: with \<open>max_depth = 2\<close> on the fixture \<open>A -> B D C\<close>, \<open>B -> C\<close>,
  \<open>C -> D\<close> the node \<open>D\<close> is a key of the map and the recorded edges hold the path
  \<open>A, B, C, D\<close> of length 3 from the root to it. (\<open>C\<close> is refused at depth 2 below \<open>B\<close> and
  expanded at depth 1 below \<open>A\<close>; \<open>D\<close> is expanded at depth 1.)
\<close>

theorem depth_limit_longer_path_exists:
  "map_option dependency_graph
     (bfs_build_dependency_graph 5 ((offline_config ''A'')\<lparr>max_depth := Some 2\<rparr>)
        (\<lambda>t. fixture_env shortcut_text) ''A'' 0 [] (init 0))
   = Some [(''A'', [''B'', ''D'', ''C'']), (''B'', [''C'']), (''D'', []), (''C'', [''D''])]
   \<and> is_chain [(''A'', [''B'', ''D'', ''C'']), (''B'', [''C'']), (''D'', []), (''C'', [''D''])]
        [''A'', ''B'', ''C'', ''D'']
   \<and> ''D'' \<in> set (dict_keys
        [(''A'', [''B'', ''D'', ''C'']), (''B'', [''C'']), (''D'', []), (''C'', [''D''])])
   \<and> \<not> int (length [''A'', ''B'', ''C'', ''D''] - 1) \<le> 2"
  by code_simp

lemma rooted_init: "rooted root lim (init t)"
  by (simp add: rooted_def init_def dict_keys_def)

text \<open>
  Claim C4, amended. With \<open>max_depth\<close> set to a positive \<open>lim\<close>, a call at a depth of \<open>lim\<close> or
  more returns the visualizer as it was (the node is neither expanded nor added by that
  call), and every key of the map built from a fresh visualizer is the end of some path of
  recorded edges from the root that has fewer than \<open>lim\<close> edges: the path along which it was
  expanded. Longer recorded paths to the same key may exist.
\<close>

theorem depth_limit_bounds_discovery_path:
  assumes "max_depth cfg = Some lim" and "0 < lim"
    and "bfs_build_dependency_graph fuel cfg w root 0 [] (init t) = Some st"
  shows "(lim \<le> int d \<longrightarrow> bfs_build_dependency_graph (Suc n) cfg w s d p st0 = Some st0)
    \<and> (\<forall>k \<in> set (dict_keys (dependency_graph st)).
          \<exists>p. is_chain (dependency_graph st) (p @ [k]) \<and> hd (p @ [k]) = root
              \<and> int (length p) < lim)"
proof
  show "lim \<le> int d \<longrightarrow> bfs_build_dependency_graph (Suc n) cfg w s d p st0 = Some st0"
    using assms(1,2) by (simp add: bfs_build_Suc depth_limit_reached_def)
  have "rooted root lim st"
    using bfs_rooted(1)[OF assms(1,2) assms(3) rooted_init] by simp
  then show "\<forall>k \<in> set (dict_keys (dependency_graph st)).
          \<exists>p. is_chain (dependency_graph st) (p @ [k]) \<and> hd (p @ [k]) = root
              \<and> int (length p) < lim"
    by (simp add: rooted_def)
qed

theorem depth_limit_bounds_discovery_path_witness:
  "\<exists>p. is_chain [(''A'', [''B'', ''D'', ''C'']), (''B'', [''C'']), (''D'', []), (''C'', [''D''])]
         (p @ [''D''])
      \<and> hd (p @ [''D'']) = ''A'' \<and> int (length p) < 2"
proof -
  let ?cfg = "(offline_config ''A'')\<lparr>max_depth := Some 2\<rparr>"
  let ?st = "\<lparr>dependency_graph =
       [(''A'', [''B'', ''D'', ''C'']), (''B'', [''C'']), (''D'', []), (''C'', [''D''])],
     reverse_dependency_graph = [], visited_packages = {''C'', ''D'', ''B'', ''A''},
     cycle_detected = False,
     stdout = [AnalysingPackage ''A'' 0, AnalysingPackage ''B'' 1, AnalysingPackage ''D'' 1,
               AnalysingPackage ''C'' 1],
     clock = 4\<rparr>"
  have h1: "max_depth ?cfg = Some 2" by (simp add: offline_config_def)
  have h2: "(0::int) < 2" by simp
  have h3: "bfs_build_dependency_graph 5 ?cfg (\<lambda>t. fixture_env shortcut_text) ''A'' 0 [] (init 0)
            = Some ?st"
    by code_simp
  from depth_limit_bounds_discovery_path[OF h1 h2 h3] show ?thesis
    by (simp add: dict_keys_def)
qed

section \<open>The reverse index and the forward map\<close>

text \<open>
  Claim C5, as stated, fails in its second half: on the acyclic fixture \<open>B -> D\<close>, \<open>C -> D\<close>,
  \<open>A -> C B\<close> the forward build from \<open>A\<close> finds no cycle and fills its map in the order
  \<open>A, C, D, B\<close>, so inverting it gives the dependents of \<open>D\<close> as \<open>[C, B]\<close>, while the reverse
  index, filled in file order, holds \<open>[B, C]\<close>; \<open>B\<close> and \<open>C\<close> are both reached from \<open>A\<close>.
\<close>

theorem inversion_order_differs:
  "map_option (\<lambda>st. (dependency_graph st, cycle_detected st,
                     dict_get (build_reverse_dependencies (dependency_graph st)) ''D''))
     (bfs_build_dependency_graph 5 (offline_config ''A'') (\<lambda>t. fixture_env order_text)
        ''A'' 0 [] (init 0))
   = Some ([(''A'', [''C'', ''B'']), (''C'', [''D'']), (''D'', []), (''B'', [''D''])], False,
           [''C'', ''B''])
   \<and> map_sum fst (\<lambda>st. dict_get (reverse_dependency_graph st) ''D'')
       (build_complete_dependency_graph (offline_config ''A'') (\<lambda>t. fixture_env order_text)
          (init 0))
     = Inr [''B'', ''C'']
   \<and> [''C'', ''B''] \<noteq> [''B'', ''C'']"
  by code_simp

text \<open>
  Claim C5, amended. After the complete build (over a plain-text fixture or a directory of
  \<open>.nuspec\<close> files), a package \<open>a\<close> occurs in the reverse index entry of \<open>b\<close> exactly as often
  as \<open>b\<close> occurs in the forward list of \<open>a\<close>. And when the world does not change, inverting
  the map of an unrestricted forward build from \<open>root\<close> gives, for every \<open>b\<close>, each dependent
  \<open>a\<close> that \<open>root\<close> reaches as often as the reverse index holds it, and no dependent that
  \<open>root\<close> does not reach: the two agree as multisets of dependents, not as lists. Acyclicity
  is not needed.
\<close>

theorem reverse_index_inverts_forward_map:
  assumes full: "build_complete_dependency_graph cfg w (init t) = Inr sr"
  shows "count_list (dict_get (reverse_dependency_graph sr) b) a
           = count_list (dict_get (dependency_graph sr) a) b
     \<and> ((\<forall>t'. w t' = w t) \<and> max_depth cfg = None \<and> filter_substring cfg = None
          \<and> bfs_build_dependency_graph fuel cfg w root 0 [] (init t0) = Some sf
        \<longrightarrow> count_list (dict_get (build_reverse_dependencies (dependency_graph sf)) b) a
              = (if a \<in> reachable (dict_get (dependency_graph sr)) root
                 then count_list (dict_get (reverse_dependency_graph sr) b) a else 0))"
proof (intro conjI impI)
  show inv: "count_list (dict_get (reverse_dependency_graph sr) b) a
           = count_list (dict_get (dependency_graph sr) a) b"
    by (rule build_complete_inverts(1)[OF full])
  assume h: "(\<forall>t'. w t' = w t) \<and> max_depth cfg = None \<and> filter_substring cfg = None
          \<and> bfs_build_dependency_graph fuel cfg w root 0 [] (init t0) = Some sf"
  let ?deps = "dict_get (dependency_graph sr)"
  have const: "snd (get_dependencies cfg (w t') n) = ?deps n" for t' n
  proof -
    from h have "w t' = w t" by blast
    then show ?thesis using build_complete_inverts(2)[OF full, of n] by (simp only:)
  qed
  from h have nolim: "max_depth cfg = None" and nofilter: "filter_substring cfg = None"
    and run: "bfs_build_dependency_graph fuel cfg w root 0 [] (init t0) = Some sf" by simp_all
  have m: "map_of (dependency_graph sf)
             = (\<lambda>k. if k \<in> reachable ?deps root then Some (?deps k) else None)"
    by (rule forward_build_complete(2)[OF nolim nofilter const run])
  have dg: "dict_get (dependency_graph sf) a = (if a \<in> reachable ?deps root then ?deps a else [])"
    by (simp add: dict_get_def[of "dependency_graph sf"] m)
  have "distinct (map fst (dependency_graph sf))"
    using bfs_distinct_keys(1)[OF run] by (simp add: init_def)
  from count_inverted[OF this, of "[]" b a]
  have "count_list (dict_get (build_reverse_dependencies (dependency_graph sf)) b) a
          = count_list (dict_get (dependency_graph sf) a) b"
    by (simp add: build_reverse_dependencies_def dict_get_def[of "[]"])
  with dg inv show "count_list (dict_get (build_reverse_dependencies (dependency_graph sf)) b) a
              = (if a \<in> reachable ?deps root
                 then count_list (dict_get (reverse_dependency_graph sr) b) a else 0)"
    by simp
qed

theorem reverse_index_inverts_forward_map_witness:
  "count_list (dict_get [(''B'', [''A'']), (''C'', [''B'', ''D''])] ''C'') ''D''
     = count_list (dict_get [(''A'', [''B'']), (''B'', [''C'']), (''D'', [''C''])] ''D'') ''C''
   \<and> count_list (dict_get (build_reverse_dependencies
                     [(''A'', [''B'']), (''B'', [''C'']), (''C'', [])]) ''C'') ''D''
     = (if ''D'' \<in> reachable (dict_get [(''A'', [''B'']), (''B'', [''C'']), (''D'', [''C''])]) ''A''
        then count_list (dict_get [(''B'', [''A'']), (''C'', [''B'', ''D''])] ''C'') ''D'' else 0)"
proof -
  let ?cfg = "offline_config ''A''"
  let ?w = "\<lambda>t::nat. fixture_env fan_text"
  let ?sr = "\<lparr>dependency_graph = [(''A'', [''B'']), (''B'', [''C'']), (''D'', [''C''])],
        reverse_dependency_graph = [(''B'', [''A'']), (''C'', [''B'', ''D''])],
        visited_packages = {}, cycle_detected = False,
        stdout = [BuildingCompleteGraph, CompleteGraphBuilt 3 3], clock = 1\<rparr>"
  let ?sf = "\<lparr>dependency_graph = [(''A'', [''B'']), (''B'', [''C'']), (''C'', [])],
     reverse_dependency_graph = [], visited_packages = {''C'', ''B'', ''A''},
     cycle_detected = False,
     stdout = [AnalysingPackage ''A'' 0, AnalysingPackage ''B'' 1, AnalysingPackage ''C'' 2],
     clock = 3\<rparr>"
  have h1: "build_complete_dependency_graph ?cfg ?w (init 0) = Inr ?sr" by code_simp
  have h2: "bfs_build_dependency_graph 5 ?cfg ?w ''A'' 0 [] (init 0) = Some ?sf" by code_simp
  have h3: "(\<forall>t'. ?w t' = ?w 0) \<and> max_depth ?cfg = None \<and> filter_substring ?cfg = None
      \<and> bfs_build_dependency_graph 5 ?cfg ?w ''A'' 0 [] (init 0) = Some ?sf"
    using h2 by (simp add: offline_config_def)
  from reverse_index_inverts_forward_map[OF h1, of "''C''" "''D''" 5 "''A''" 0 ?sf] h3
  show ?thesis by simp
qed

section \<open>Reverse mode against the online registry\<close>

text \<open>
  Claim C6. In reverse mode with the online registry as the source,
  \<open>build_complete_dependency_graph\<close> raises before the world is queried and before any reverse
  traversal starts (the result does not depend on the recursion bound, and the visualizer
  has only printed the opening line), and \<open>run\<close> ends the process with status 1. The failure
  of a lookup does not end the run: a forward run whose lookup of the root fails completes,
  with the failure printed and the root recorded with no dependencies, at level 0.
\<close>

theorem reverse_online_unsupported:
  assumes "reverse_mode cfg" and "work_mode cfg = Online"
  shows "build_complete_dependency_graph cfg w (init t)
           = Inl (GraphBuildFailed ReverseUnavailableOnline, print [BuildingCompleteGraph] (init t))
       \<and> run fuel cfg w t
           = Some (Exit1 (GraphBuildFailed ReverseUnavailableOnline)
                    (print [BuildingCompleteGraph] (init t)))
       \<and> (\<not> reverse_mode cfg' \<and> \<not> depth_limit_reached cfg' 0
            \<and> \<not> should_skip_package cfg' (package_name cfg')
            \<and> query_source cfg' (w' t') (package_name cfg') = (out, Inl err)
          \<longrightarrow> run (Suc fuel') cfg' w' t'
                = Some (Completed
                    ((init t')\<lparr>visited_packages := {package_name cfg'},
                              stdout := [AnalysingPackage (package_name cfg') 0] @ out
                                          @ [LookupError (package_name cfg') err],
                              clock := Suc t',
                              dependency_graph := [(package_name cfg', [])]\<rparr>)
                    [(package_name cfg', 0)]))"
proof (intro conjI impI)
  show b: "build_complete_dependency_graph cfg w (init t)
           = Inl (GraphBuildFailed ReverseUnavailableOnline, print [BuildingCompleteGraph] (init t))"
    using assms by (simp add: build_complete_dependency_graph_def Let_def)
  show "run fuel cfg w t
           = Some (Exit1 (GraphBuildFailed ReverseUnavailableOnline)
                    (print [BuildingCompleteGraph] (init t)))"
    using assms by (simp add: run_def b)
  let ?r = "package_name cfg'"
  let ?st = "(init t')\<lparr>visited_packages := {?r},
                       stdout := [AnalysingPackage ?r 0] @ out @ [LookupError ?r err],
                       clock := Suc t', dependency_graph := [(?r, [])]\<rparr>"
  assume h: "\<not> reverse_mode cfg' \<and> \<not> depth_limit_reached cfg' 0
            \<and> \<not> should_skip_package cfg' (package_name cfg')
            \<and> query_source cfg' (w' t') (package_name cfg') = (out, Inl err)"
  then have gd: "get_dependencies cfg' (w' (clock (init t'))) ?r = (out @ [LookupError ?r err], [])"
    by (simp add: get_dependencies_def init_def)
  have ex: "expanded cfg' w' ?r 0 (init t') = ?st"
    by (simp add: expanded_def gd) (simp add: init_def)
  have tr: "bfs_build_dependency_graph (Suc fuel') cfg' w' ?r 0 [] (init t') = Some ?st"
    using h by (simp add: bfs_build_Suc gd ex) (simp add: init_def)
  have lv: "dependency_levels (Suc fuel') (dependency_graph ?st) = Some [(?r, 0)]"
    by (simp add: dependency_levels_def dict_keys_def dict_get_def)
  from h have "\<not> reverse_mode cfg'" by simp
  then show "run (Suc fuel') cfg' w' t' = Some (Completed ?st [(?r, 0)])"
    using lv by (simp add: run_def tr)
qed

theorem reverse_online_unsupported_witness:
  "run 0 ((online_config ''Newtonsoft.Json'')\<lparr>reverse_mode := True\<rparr>) (\<lambda>t. fixture_env []) 0
     = Some (Exit1 (GraphBuildFailed ReverseUnavailableOnline)
              (print [BuildingCompleteGraph] (init 0)))
   \<and> run 1 (online_config ''X'') (\<lambda>t. fixture_env []) 0
     = Some (Completed
          ((init 0)\<lparr>visited_packages := {''X''},
                    stdout := [AnalysingPackage ''X'' 0, LookupError ''X'' (RegistryFailure [])],
                    clock := 1, dependency_graph := [(''X'', [])]\<rparr>)
          [(''X'', 0)])"
proof -
  let ?cfg = "(online_config ''Newtonsoft.Json'')\<lparr>reverse_mode := True\<rparr>"
  have h1: "reverse_mode ?cfg" by (simp add: online_config_def)
  have h2: "work_mode ?cfg = Online" by (simp add: online_config_def)
  have h3: "\<not> reverse_mode (online_config ''X'') \<and> \<not> depth_limit_reached (online_config ''X'') 0
            \<and> \<not> should_skip_package (online_config ''X'') (package_name (online_config ''X''))
            \<and> query_source (online_config ''X'') ((\<lambda>t. fixture_env []) 0)
                 (package_name (online_config ''X'')) = ([], Inl (RegistryFailure []))"
    by (simp add: query_source_def online_config_def get_package_dependencies_online_def
        fixture_env_def depth_limit_reached_def should_skip_package_def)
  note u = reverse_online_unsupported[OF h1 h2, of "\<lambda>t. fixture_env []" 0 0]
  from u have a: "run 0 ?cfg (\<lambda>t. fixture_env []) 0
     = Some (Exit1 (GraphBuildFailed ReverseUnavailableOnline)
              (print [BuildingCompleteGraph] (init 0)))"
    by blast
  from u[THEN conjunct2, THEN conjunct2, rule_format, OF h3, of 0]
  have "run 1 (online_config ''X'') (\<lambda>t. fixture_env []) 0
     = Some (Completed
          ((init 0)\<lparr>visited_packages := {''X''},
                    stdout := [AnalysingPackage ''X'' 0, LookupError ''X'' (RegistryFailure [])],
                    clock := 1, dependency_graph := [(''X'', [])]\<rparr>)
          [(''X'', 0)])"
    by (simp add: online_config_def)
  with a show ?thesis by blast
qed

section \<open>A lookup that fails\<close>

text \<open>
  Claim C7. When the source raises for a node that the forward traversal is about to expand,
  \<open>get_dependencies\<close> reports the failure and answers the empty list; the node is marked
  visited and recorded with an empty dependency list; the call returns, and the loop of the
  caller goes on with the remaining dependencies from that visualizer.
\<close>

theorem lookup_failure_is_local:
  assumes fail: "query_source cfg (w (clock st)) s = (out, Inl e)"
    and "\<not> depth_limit_reached cfg d" and "s \<notin> set p" and "\<not> should_skip_package cfg s"
    and "s \<notin> visited_packages st"
  shows "(let st' = st\<lparr>visited_packages := insert s (visited_packages st),
                        stdout := stdout st @ [AnalysingPackage s d] @ out @ [LookupError s e],
                        clock := Suc (clock st),
                        dependency_graph := AList.update s [] (dependency_graph st)\<rparr>
          in get_dependencies cfg (w (clock st)) s = (out @ [LookupError s e], [])
             \<and> bfs_build_dependency_graph (Suc fuel) cfg w s d p st = Some st'
             \<and> bfs_dependencies (Suc fuel) cfg w (s # rest) d p st
                 = bfs_dependencies (Suc fuel) cfg w rest d p st')"
proof -
  have gd: "get_dependencies cfg (w (clock st)) s = (out @ [LookupError s e], [])"
    using fail by (simp add: get_dependencies_def)
  have ex: "expanded cfg w s d st
      = st\<lparr>visited_packages := insert s (visited_packages st),
            stdout := stdout st @ [AnalysingPackage s d] @ out @ [LookupError s e],
            clock := Suc (clock st),
            dependency_graph := AList.update s [] (dependency_graph st)\<rparr>"
    by (simp add: expanded_def gd)
  have b: "bfs_build_dependency_graph (Suc fuel) cfg w s d p st = Some (expanded cfg w s d st)"
    using assms(2-5) by (simp add: bfs_build_Suc gd)
  have c: "bfs_dependencies (Suc fuel) cfg w (s # rest) d p st
             = bfs_dependencies (Suc fuel) cfg w rest d p (expanded cfg w s d st)"
    by (simp add: b)
  show ?thesis
    unfolding Let_def using gd b c by (simp only: ex simp_thms)
qed

theorem lookup_failure_is_local_witness:
  "bfs_build_dependency_graph 3 (online_config ''X'') (\<lambda>t. fixture_env []) ''X'' 0 [] (init 0)
     = Some ((init 0)\<lparr>visited_packages := {''X''},
               stdout := [AnalysingPackage ''X'' 0, LookupError ''X'' (RegistryFailure [])],
               clock := 1, dependency_graph := [(''X'', [])]\<rparr>)"
proof -
  have h1: "query_source (online_config ''X'') ((\<lambda>t. fixture_env []) (clock (init 0))) ''X''
              = ([], Inl (RegistryFailure []))"
    by (simp add: query_source_def online_config_def get_package_dependencies_online_def
        fixture_env_def)
  have h2: "\<not> depth_limit_reached (online_config ''X'') 0"
    by (simp add: depth_limit_reached_def online_config_def)
  have h3: "''X'' \<notin> set []" by simp
  have h4: "\<not> should_skip_package (online_config ''X'') ''X''"
    by (simp add: should_skip_package_def online_config_def)
  have h5: "''X'' \<notin> visited_packages (init 0)" by (simp add: init_def)
  from lookup_failure_is_local[OF h1 h2 h3 h4 h5, of 2] show ?thesis
    by (simp add: Let_def init_def eval_nat_numeral)
qed

section \<open>Dependency levels\<close>

text \<open>
  Claim C8. On a map whose edges between keys form no cycle, the level computation of a key
  returns once the recursion bound exceeds the number of entries, and its result is 0 when
  the recorded dependency list of the package is empty and otherwise 1 plus the maximum of
  the levels of those dependencies that are keys (the maximum starts from 0, so a package
  whose dependencies are all absent from the map has level 1).
\<close>

theorem level_of_acyclic_map:
  assumes ac: "acyclic (level_edges g)" and key: "package \<in> set (dict_keys g)"
    and fuel: "length g < fuel"
  shows "\<exists>n. calculate_dependency_level fuel g package = Some n
     \<and> n = (if dict_get g package = [] then 0
            else 1 + Max (insert 0 ((\<lambda>d. the (calculate_dependency_level fuel g d)) `
                            {d \<in> set (dict_get g package). d \<in> set (dict_keys g)})))"
proof -
  from fuel obtain f where f: "fuel = Suc f" by (cases fuel) auto
  have "card (set (dict_keys g)) \<le> length g"
    using card_length[of "dict_keys g"] by (simp add: dict_keys_def)
  with fuel have "card (set (dict_keys g)) < fuel + length ([] :: string list)" by simp
  from level_returns(1)[OF ac _ _ _ key this]
  obtain n where n: "calculate_dependency_level fuel g package = Some n" by auto
  show ?thesis
  proof (cases "dict_get g package = []")
    case True
    with n f show ?thesis by simp
  next
    case False
    let ?ds = "filter (\<lambda>d. d \<in> set (dict_keys g)) (dict_get g package)"
    from n f False obtain m where m: "max_child_level f g (dict_get g package) 0 = Some m"
      and nm: "n = Suc m" by auto
    from max_child_level_value[OF m]
    have v: "m = fold max (map (\<lambda>d. the (calculate_dependency_level f g d)) ?ds) 0"
      and r: "\<forall>d \<in> set (dict_get g package). d \<in> set (dict_keys g) \<longrightarrow>
                calculate_dependency_level f g d \<noteq> None"
      by simp_all
    have same: "the (calculate_dependency_level f g d) = the (calculate_dependency_level fuel g d)"
      if "d \<in> set ?ds" for d
    proof -
      from that r obtain c where c: "calculate_dependency_level f g d = Some c" by auto
      from level_mono(1)[OF c, of 1] f show ?thesis by (simp add: c)
    qed
    have "map (\<lambda>d. the (calculate_dependency_level f g d)) ?ds
            = map (\<lambda>d. the (calculate_dependency_level fuel g d)) ?ds"
      using same by (intro map_cong) auto
    with v have "m = fold max (map (\<lambda>d. the (calculate_dependency_level fuel g d)) ?ds) 0"
      by simp
    also have "\<dots> = Max (set (0 # map (\<lambda>d. the (calculate_dependency_level fuel g d)) ?ds))"
      by (simp only: Max.set_eq_fold)
    also have "set (0 # map (\<lambda>d. the (calculate_dependency_level fuel g d)) ?ds)
        = insert 0 ((\<lambda>d. the (calculate_dependency_level fuel g d)) `
                            {d \<in> set (dict_get g package). d \<in> set (dict_keys g)})"
      by auto
    finally show ?thesis using n nm False by simp
  qed
qed

theorem level_of_acyclic_map_witness:
  "\<exists>n. calculate_dependency_level 4 [(''A'', [''B'', ''C'']), (''B'', [''C'']), (''C'', [])] ''A''
          = Some n
     \<and> n = 1 + Max (insert 0 ((\<lambda>d. the (calculate_dependency_level 4
                      [(''A'', [''B'', ''C'']), (''B'', [''C'']), (''C'', [])] d)) `
                 {d \<in> set [''B'', ''C'']. d \<in> set [''A'', ''B'', ''C'']}))"
proof -
  let ?g = "[(''A'', [''B'', ''C'']), (''B'', [''C'']), (''C'', [])]"
  let ?rank = "\<lambda>x. if x = ''A'' then 2 else if x = ''B'' then 1 else (0::nat)"
  have h1: "acyclic (level_edges ?g)"
  proof (rule acyclicI_order[where f = ?rank])
    fix a b assume "(a, b) \<in> level_edges ?g"
    then show "?rank b < ?rank a"
      by (auto simp: level_edges_def dict_get_def dict_keys_def split: if_splits)
  qed
  have h2: "''A'' \<in> set (dict_keys ?g)" by (simp add: dict_keys_def)
  have h3: "length ?g < 4" by simp
  from level_of_acyclic_map[OF h1 h2 h3] show ?thesis
    by (simp add: dict_get_def dict_keys_def)
qed

section \<open>Running the forward build twice\<close>

text \<open>
  Claim C9. If the source is deterministic (at any two times it answers the same list for
  the same name), then a forward build that returns, started from a fresh visualizer at one
  time, is matched by the build with the same root, depth limit and filter started from a
  fresh visualizer at any other time: it returns with the same recursion bound, and whatever
  bound it returns with, its map is the same association list, so the keys, their order and
  the order of every dependency list agree.
\<close>

theorem forward_build_idempotent:
  assumes det: "\<And>t t' n. snd (get_dependencies cfg (w t) n) = snd (get_dependencies cfg (w t') n)"
    and run: "bfs_build_dependency_graph fuel cfg w root 0 [] (init t1) = Some st1"
  shows "map_option dependency_graph (bfs_build_dependency_graph fuel cfg w root 0 [] (init t2))
           = Some (dependency_graph st1)
    \<and> (\<forall>fuel' st2. bfs_build_dependency_graph fuel' cfg w root 0 [] (init t2) = Some st2
          \<longrightarrow> dependency_graph st2 = dependency_graph st1)"
proof -
  have "same_graph (init t1) (init t2)" by (simp add: same_graph_def init_def)
  then have "rel_option same_graph (bfs_build_dependency_graph fuel cfg w root 0 [] (init t1))
     (bfs_build_dependency_graph fuel cfg w root 0 [] (init t2))"
    by (intro bfs_simulation(1) det)
  with run obtain sa where sa: "bfs_build_dependency_graph fuel cfg w root 0 [] (init t2) = Some sa"
    and g: "same_graph st1 sa"
    by (cases "bfs_build_dependency_graph fuel cfg w root 0 [] (init t2)") auto
  have "dependency_graph st2 = dependency_graph st1"
    if "bfs_build_dependency_graph fuel' cfg w root 0 [] (init t2) = Some st2" for fuel' st2
    using bfs_fuel_irrelevant[OF that sa] g by (simp add: same_graph_def)
  with sa g show ?thesis by (simp add: same_graph_def)
qed

theorem forward_build_idempotent_witness:
  "map_option dependency_graph
     (bfs_build_dependency_graph 5 (offline_config ''A'') (\<lambda>t. fixture_env cycle_text)
        ''A'' 0 [] (init 7))
   = Some [(''A'', [''B'']), (''B'', [''C'']), (''C'', [''A''])]"
proof -
  let ?st = "\<lparr>dependency_graph = [(''A'', [''B'']), (''B'', [''C'']), (''C'', [''A''])],
     reverse_dependency_graph = [], visited_packages = {''C'', ''B'', ''A''},
     cycle_detected = True,
     stdout = [AnalysingPackage ''A'' 0, AnalysingPackage ''B'' 1, AnalysingPackage ''C'' 2,
               CycleFound [''A'', ''B'', ''C'', ''A'']],
     clock = 3\<rparr>"
  have run: "bfs_build_dependency_graph 5 (offline_config ''A'') (\<lambda>t. fixture_env cycle_text)
               ''A'' 0 [] (init 0) = Some ?st"
    by code_simp
  have det: "snd (get_dependencies (offline_config ''A'') ((\<lambda>t. fixture_env cycle_text) t) n)
     = snd (get_dependencies (offline_config ''A'') ((\<lambda>t. fixture_env cycle_text) t') n)"
    for t t' :: nat and n
    by simp
  from forward_build_idempotent[where w = "\<lambda>t. fixture_env cycle_text" and ?t2.0 = 7, OF det run]
  show ?thesis by simp
qed

section \<open>The map of a reverse run\<close>

text \<open>
  Claim C10. In reverse mode over a plain-text fixture, the complete build makes the whole
  forward adjacency of the fixture the visualizer's map, with nothing visited; the reverse
  traversal then overwrites the entries of the packages it visits with their lists of
  dependents (the reverse index of the fixture). So in the map that a completed run hands
  to the display methods, every package of the fixture that the reverse traversal did not
  visit is still a key, mapped to its forward dependency list.
\<close>

theorem reverse_keeps_unvisited_forward_entries:
  assumes rev: "reverse_mode cfg" and off: "work_mode cfg = Offline"
    and path: "test_repo_path cfg = Some path"
    and isfile: "filesystem (w t) path = RegularFile content"
    and run: "run fuel cfg w t = Some (Completed st levels)"
  shows "\<exists>g. load_test_repository content = Inr g
     \<and> (case build_complete_dependency_graph cfg w (init t) of
          Inl x \<Rightarrow> False
        | Inr st1 \<Rightarrow> dependency_graph st1 = g \<and> visited_packages st1 = {})
     \<and> (\<forall>k \<in> set (dict_keys g). k \<notin> visited_packages st \<longrightarrow>
          map_of (dependency_graph st) k = Some (dict_get g k))
     \<and> (\<forall>k \<in> visited_packages st.
          map_of (dependency_graph st) k = Some (dict_get (build_reverse_dependencies g) k))"
proof (cases "load_test_repository content")
  case (Inl e)
  then have "\<exists>e0 s0. build_complete_dependency_graph cfg w (init t) = Inl (e0, s0)"
    using off path isfile
    by (simp add: build_complete_dependency_graph_def Let_def detect_repository_type_def
        open_test_repository_def init_def print_def)
  with run rev show ?thesis by (auto simp: run_def)
next
  case (Inr g)
  define st1 where "st1 = (print [CompleteGraphBuilt (length g) (reverse_links (build_reverse_dependencies g))]
     ((print [BuildingCompleteGraph] (init t))\<lparr>clock := Suc t, dependency_graph := g,
        reverse_dependency_graph := build_reverse_dependencies g\<rparr>))"
  have bc: "build_complete_dependency_graph cfg w (init t) = Inr st1"
    using off path isfile Inr
    by (simp add: build_complete_dependency_graph_def Let_def detect_repository_type_def
        open_test_repository_def init_def print_def st1_def build_reverse_dependencies_def)
  have f1: "dependency_graph st1 = g" "visited_packages st1 = {}"
    "reverse_dependency_graph st1 = build_reverse_dependencies g"
    by (simp_all add: st1_def init_def)
  from run rev bc have tr: "bfs_build_reverse_dependency_graph fuel cfg (package_name cfg) 0 [] st1 = Some st"
    by (simp add: run_def split: option.splits)
  from rev_overwritten(1)[OF tr] have ov: "overwritten st1 st" .
  have a: "\<forall>k \<in> set (dict_keys g). k \<notin> visited_packages st \<longrightarrow>
          map_of (dependency_graph st) k = Some (dict_get g k)"
    using ov f1 by (simp add: overwritten_def map_of_dict_get)
  have b: "\<forall>k \<in> visited_packages st.
          map_of (dependency_graph st) k = Some (dict_get (build_reverse_dependencies g) k)"
    using ov f1 by (simp add: overwritten_def)
  show ?thesis using Inr bc f1 a b by simp
qed

theorem reverse_keeps_unvisited_forward_entries_witness:
  "map_of [(''A'', []), (''B'', [''A'']), (''D'', [''C''])] ''D''
     = Some (dict_get [(''A'', [''B'']), (''B'', [''C'']), (''D'', [''C''])] ''D'')"
proof -
  let ?cfg = "(offline_config ''B'')\<lparr>reverse_mode := True\<rparr>"
  let ?st = "\<lparr>dependency_graph = [(''A'', []), (''B'', [''A'']), (''D'', [''C''])],
       reverse_dependency_graph = [(''B'', [''A'']), (''C'', [''B'', ''D''])],
       visited_packages = {''A'', ''B''}, cycle_detected = False,
       stdout = [BuildingCompleteGraph, CompleteGraphBuilt 3 3,
                 AnalysingPackage ''B'' 0, AnalysingPackage ''A'' 1],
       clock = 1\<rparr>"
  have h1: "reverse_mode ?cfg" by (simp add: offline_config_def)
  have h2: "work_mode ?cfg = Offline" by (simp add: offline_config_def)
  have h3: "test_repo_path ?cfg = Some ''repo.txt''" by (simp add: offline_config_def)
  have h4: "filesystem ((\<lambda>t. fixture_env fan_text) 0) ''repo.txt'' = RegularFile fan_text"
    by (simp add: fixture_env_def)
  have h5: "run 5 ?cfg (\<lambda>t. fixture_env fan_text) 0 = Some (Completed ?st [])"
    by code_simp
  have l: "load_test_repository fan_text
             = Inr [(''A'', [''B'']), (''B'', [''C'']), (''D'', [''C''])]"
    by code_simp
  from reverse_keeps_unvisited_forward_entries[OF h1 h2 h3 h4 h5] l
  show ?thesis by (simp add: dict_keys_def)
qed

end
